theory Spec2Isabelle
  imports Main
begin

section \<open>JavaScript regular expressions\<close>

text \<open>
  The program works on the textual form of compiled path patterns with five regular
  expression literals. They are embedded as syntax trees and run by a backtracking
  matcher in continuation-passing style, which is how ECMAScript itself defines pattern
  matching (section RegExp Pattern Semantics): a matcher takes the current state and a
  continuation, and alternatives are tried in priority order, the first success winning.

  Characters are Isabelle's 8-bit \<open>char\<close>; \<open>string\<close> is \<open>char list\<close>. A backslash
  cannot be written inside a string literal, so it has a name.
\<close>

abbreviation BSL :: char where "BSL \<equiv> CHR 0x5C"

datatype citem = CChar char | CWord

datatype regex =
    Chr char
  | Dot
  | Class "citem list"
  | NClass "citem list"
  | Bol
  | Eps
  | Seq regex regex
  | Alt regex regex
  | Opt regex
  | Star regex
  | Plus regex
  | Group nat regex

text \<open>\<open>\w\<close> is \<open>[A-Za-z0-9_]\<close>.\<close>

definition is_word :: "char \<Rightarrow> bool" where
  "is_word c = (let n = (of_char c :: nat) in
     (48 \<le> n \<and> n \<le> 57) \<or> (65 \<le> n \<and> n \<le> 90) \<or> n = 95 \<or> (97 \<le> n \<and> n \<le> 122))"

fun in_item :: "char \<Rightarrow> citem \<Rightarrow> bool" where
  "in_item c (CChar d) = (c = d)"
| "in_item c CWord = is_word c"

definition in_class :: "citem list \<Rightarrow> char \<Rightarrow> bool" where
  "in_class items c = list_ex (in_item c) items"

text \<open>\<open>.\<close> matches everything but a line terminator (of which 8-bit characters have two).\<close>

definition is_line_terminator :: "char \<Rightarrow> bool" where
  "is_line_terminator c = (c = CHR 0x0A \<or> c = CHR 0x0D)"

text \<open>
  A matcher state is the input still to be read together with the captures made so far
  (\<open>None\<close> is JavaScript's \<open>undefined\<close>). Backtracking restores the captures because
  states are values.
\<close>

type_synonym captures = "nat \<Rightarrow> string option"
type_synonym mstate = "string \<times> captures"
type_synonym cont = "mstate \<Rightarrow> mstate option"

definition char_matcher :: "(char \<Rightarrow> bool) \<Rightarrow> cont \<Rightarrow> mstate \<Rightarrow> mstate option" where
  "char_matcher P k st =
     (case fst st of [] \<Rightarrow> None | c # cs \<Rightarrow> if P c then k (cs, snd st) else None)"

text \<open>
  ECMAScript's RepeatMatcher for a greedy quantifier without upper bound: try one more
  iteration, which must consume input (an iteration that matches the empty string is
  rejected), and only if that fails go on with the continuation. The first argument
  bounds the number of iterations; the length of the remaining input is always enough,
  since every iteration consumes a character (lemma \<open>repeat_matcher_unfold\<close> below).
\<close>

primrec repeat_matcher ::
  "(cont \<Rightarrow> mstate \<Rightarrow> mstate option) \<Rightarrow> nat \<Rightarrow> cont \<Rightarrow> mstate \<Rightarrow> mstate option" where
  "repeat_matcher f 0 k st = k st"
| "repeat_matcher f (Suc n) k st =
     (case f (\<lambda>st'. if length (fst st') < length (fst st) then repeat_matcher f n k st' else None) st of
        Some r \<Rightarrow> Some r
      | None \<Rightarrow> k st)"

text \<open>
  \<open>matcher n r k st\<close>: \<open>n\<close> is the length of the whole input, which \<open>^\<close> needs (none of
  the patterns has the multiline flag). No pattern of the program has a capture group
  inside a quantifier, so the reset of inner captures at each iteration is not modelled.
\<close>

primrec matcher :: "nat \<Rightarrow> regex \<Rightarrow> cont \<Rightarrow> mstate \<Rightarrow> mstate option" where
  "matcher n (Chr c) k st = char_matcher (\<lambda>x. x = c) k st"
| "matcher n Dot k st = char_matcher (\<lambda>x. \<not> is_line_terminator x) k st"
| "matcher n (Class items) k st = char_matcher (in_class items) k st"
| "matcher n (NClass items) k st = char_matcher (\<lambda>x. \<not> in_class items x) k st"
| "matcher n Bol k st = (if length (fst st) = n then k st else None)"
| "matcher n Eps k st = k st"
| "matcher n (Seq a b) k st = matcher n a (matcher n b k) st"
| "matcher n (Alt a b) k st =
     (case matcher n a k st of Some r \<Rightarrow> Some r | None \<Rightarrow> matcher n b k st)"
| "matcher n (Opt a) k st =
     (case matcher n a (\<lambda>st'. if length (fst st') < length (fst st) then k st' else None) st of
        Some r \<Rightarrow> Some r
      | None \<Rightarrow> k st)"
| "matcher n (Star a) k st = repeat_matcher (matcher n a) (length (fst st)) k st"
| "matcher n (Plus a) k st =
     matcher n a (\<lambda>st'. repeat_matcher (matcher n a) (length (fst st')) k st') st"
| "matcher n (Group i a) k st =
     matcher n a (\<lambda>st'. k (fst st',
        (snd st')(i := Some (take (length (fst st) - length (fst st')) (fst st))))) st"

fun seqs :: "regex list \<Rightarrow> regex" where
  "seqs [] = Eps"
| "seqs [r] = r"
| "seqs (r # rs) = Seq r (seqs rs)"

text \<open>A match attempt at one position: the length of the match and its captures.\<close>

definition match_at :: "nat \<Rightarrow> regex \<Rightarrow> string \<Rightarrow> (nat \<times> captures) option" where
  "match_at n r suf =
     (case matcher n r Some (suf, \<lambda>_. None) of
        None \<Rightarrow> None
      | Some (rest, caps) \<Rightarrow> Some (length suf - length rest, caps))"

text \<open>
  RegExpBuiltinExec tries the start positions from left to right; \<open>scan n r i suf\<close> does
  so for the suffix \<open>suf\<close> that starts at index \<open>i\<close> and gives index, length and captures
  of the first match.
\<close>

primrec scan :: "nat \<Rightarrow> regex \<Rightarrow> nat \<Rightarrow> string \<Rightarrow> (nat \<times> nat \<times> captures) option" where
  "scan n r i [] =
     (case match_at n r [] of None \<Rightarrow> None | Some (len, caps) \<Rightarrow> Some (i, len, caps))"
| "scan n r i (c # cs) =
     (case match_at n r (c # cs) of
        None \<Rightarrow> scan n r (Suc i) cs
      | Some (len, caps) \<Rightarrow> Some (i, len, caps))"

text \<open>\<open>exec\<close> and \<open>test\<close> of a pattern without the global flag: always from index 0.\<close>

definition exec :: "regex \<Rightarrow> string \<Rightarrow> (nat \<times> nat \<times> captures) option" where
  "exec r s = scan (length s) r 0 s"

definition test :: "regex \<Rightarrow> string \<Rightarrow> bool" where
  "test r s = (exec r s \<noteq> None)"

text \<open>
  \<open>test\<close> of a pattern with the global flag reads and writes the pattern object's
  \<open>lastIndex\<close>: the search starts there; a failure (also \<open>lastIndex\<close> beyond the end)
  resets it to 0, a success sets it to the end of the match. The state is passed
  explicitly: the result is the answer and the new \<open>lastIndex\<close>.
\<close>

definition test_global :: "regex \<Rightarrow> string \<Rightarrow> nat \<Rightarrow> bool \<times> nat" where
  "test_global r s lastIndex =
     (if lastIndex > length s then (False, 0)
      else case scan (length s) r lastIndex (drop lastIndex s) of
             None \<Rightarrow> (False, 0)
           | Some (i, len, caps) \<Rightarrow> (True, i + len))"

text \<open>
  \<open>String.prototype.replace\<close> with a pattern without the global flag and a replacer
  function: the leftmost match is replaced by the function's result on the matched text.
\<close>

definition replace_first :: "regex \<Rightarrow> (string \<Rightarrow> string) \<Rightarrow> string \<Rightarrow> string" where
  "replace_first r f s =
     (case exec r s of
        None \<Rightarrow> s
      | Some (i, len, caps) \<Rightarrow> take i s @ f (take len (drop i s)) @ drop (i + len) s)"

text \<open>
  \<open>String.prototype.replace\<close> with a global pattern replaces every match, searching on
  after the end of the previous one (one character further after an empty match). The
  walk goes through the string once; \<open>skip\<close> counts the characters of the current match
  still to be passed over. The pattern's \<open>lastIndex\<close> is 0 before and after.
\<close>

primrec replace_walk :: "nat \<Rightarrow> regex \<Rightarrow> (captures \<Rightarrow> string) \<Rightarrow> nat \<Rightarrow> string \<Rightarrow> string" where
  "replace_walk n r f skip [] =
     (if skip = 0
      then (case match_at n r [] of None \<Rightarrow> [] | Some (len, caps) \<Rightarrow> f caps)
      else [])"
| "replace_walk n r f skip (c # cs) =
     (if skip > 0 then replace_walk n r f (skip - 1) cs
      else case match_at n r (c # cs) of
             None \<Rightarrow> c # replace_walk n r f 0 cs
           | Some (len, caps) \<Rightarrow>
               f caps @ (if len = 0 then c # replace_walk n r f 0 cs
                         else replace_walk n r f (len - 1) cs))"

definition replace_global :: "regex \<Rightarrow> (captures \<Rightarrow> string) \<Rightarrow> string \<Rightarrow> string" where
  "replace_global r f s = replace_walk (length s) r f 0 s"

subsection \<open>The patterns of the source\<close>

text \<open>\<open>[\w\\.-]\<close>\<close>

definition path_class :: regex where
  "path_class = Class [CWord, CChar BSL, CChar CHR ''.'', CChar CHR ''-'']"

text \<open>\<open>\(\?:\<close> \<open>seps\<close> \<open>\([^)]+\)\)\<close>: the shape shared by the three parameter patterns.\<close>

definition param_group :: "regex list \<Rightarrow> regex" where
  "param_group seps = seqs ([Chr CHR ''('', Chr CHR ''?'', Chr CHR '':''] @ seps @
      [Chr CHR ''('', Plus (NClass [CChar CHR '')'']), Chr CHR '')'', Chr CHR '')''])"

text \<open>\<^verbatim>\<open>/^\/\^\\?\/?(?:(:?[\w\\.-]*(?:\\\/:?[\w\\.-]*)*)|(\(\?:\\?\/?\([^)]+\)\)))\\\/.*/\<close>\<close>

definition regExpToParseExpressPathRegExp :: regex where
  "regExpToParseExpressPathRegExp = seqs
     [Bol, Chr CHR ''/'', Chr CHR ''^'', Opt (Chr BSL), Opt (Chr CHR ''/''),
      Alt (Group 1 (seqs [Opt (Chr CHR '':''), Star path_class,
                          Star (seqs [Chr BSL, Chr CHR ''/'', Opt (Chr CHR '':''), Star path_class])]))
          (Group 2 (param_group [Opt (Chr BSL), Opt (Chr CHR ''/'')])),
      Chr BSL, Chr CHR ''/'', Star Dot]"

text \<open>\<^verbatim>\<open>/\(\?:\\?\/?\([^)]+\)\)/\<close>\<close>

definition regExpToReplaceExpressPathRegExpParams :: regex where
  "regExpToReplaceExpressPathRegExpParams = param_group [Opt (Chr BSL), Opt (Chr CHR ''/'')]"

text \<open>\<^verbatim>\<open>/\(\?:\\?\\?\/?\([^)]+\)\)/g\<close>\<close>

definition regexpExpressParamRegexp :: regex where
  "regexpExpressParamRegexp = param_group [Opt (Chr BSL), Opt (Chr BSL), Opt (Chr CHR ''/'')]"

text \<open>\<^verbatim>\<open>/(:[^)]+)\([^)]+\)/g\<close>\<close>

definition regexpExpressPathParamRegexp :: regex where
  "regexpExpressPathParamRegexp = seqs
     [Group 1 (seqs [Chr CHR '':'', Plus (NClass [CChar CHR '')''])]),
      Chr CHR ''('', Plus (NClass [CChar CHR '')'']), Chr CHR '')'']"

text \<open>\<^verbatim>\<open>/\\\//g\<close>, the pattern of the last replacement in \<open>parseExpressPath\<close>.\<close>

definition escapedSlashRegexp :: regex where
  "escapedSlashRegexp = seqs [Chr BSL, Chr CHR ''/'']"

text \<open>\<^verbatim>\<open>'/^\\/?(?=\\/|$)/i'\<close>, that is the text \<^verbatim>\<open>/^\/?(?=\/|$)/i\<close>.\<close>

definition EXPRESS_ROOT_PATH_REGEXP_VALUE :: string where
  "EXPRESS_ROOT_PATH_REGEXP_VALUE = ''/^'' @ BSL # ''/?(?='' @ BSL # ''/|$)/i''"

section \<open>Data model\<close>

text \<open>
  The routing tree is the input and is never changed. A node (an application, a router
  or a plain handler function) may have a layer stack of its own (\<open>app.stack\<close>) or one
  behind \<open>app._router\<close>; \<open>None\<close> is an absent field. A layer (\<open>stackItem\<close>) has the fields
  the program reads: \<open>route\<close>, \<open>name\<close>, \<open>regexp\<close> (kept as the text \<open>toString()\<close> gives),
  \<open>keys\<close>, \<open>path\<close> and \<open>handle\<close>. The datatype is finite, so every tree is acyclic.

  A route's method table is the list \<open>Object.keys(route.methods)\<close> returns, its path is
  one string or a list of strings, and each item of its handler stack is represented by
  \<open>item.handle.name\<close> (the empty string for a function without a name).
\<close>

datatype error = TypeError

record Key =
  key_name :: string

record Route =
  route_methods :: "string list"
  route_path :: "string + string list"
  route_stack :: "string list"

record Endpoint =
  path :: string
  methods :: "string list"
  middlewares :: "string list"

record Options =
  includeMiddlewareRoutes :: bool

datatype node = Node (app_stack: "layer list option") (app_router: "layer list option option")
and layer = Layer (item_route: "Route option") (item_name: "string option")
    (item_regexp: "string option") (item_keys: "Key list") (item_path: "string option")
    (item_handle: node)

text \<open>
  A result is the value returned or the exception thrown, together with the \<open>lastIndex\<close>
  of the one pattern object that is used through \<open>test\<close> with the global flag
  (\<open>regexpExpressParamRegexp\<close>): a module-level constant, so its state outlives each call.
\<close>

type_synonym 'a outcome = "(error + 'a) \<times> nat"

section \<open>The program\<close>

definition DEFAULT_OPTIONS :: Options where
  "DEFAULT_OPTIONS = \<lparr>includeMiddlewareRoutes = True\<rparr>"

definition STACK_ITEM_VALID_NAMES :: "string list" where
  "STACK_ITEM_VALID_NAMES = [''router'', ''bound dispatch'', ''mounted_app'']"

definition STACK_ITEM_VALID_NAMES_INCLUDING_MIDDLEWARE_ROUTES :: "string list" where
  "STACK_ITEM_VALID_NAMES_INCLUDING_MIDDLEWARE_ROUTES = ''<anonymous>'' # STACK_ITEM_VALID_NAMES"

text \<open>\<open>toUpperCase\<close> on ASCII letters; method names are HTTP tokens.\<close>

definition toUpperCase :: "string \<Rightarrow> string" where
  "toUpperCase s = map (\<lambda>c. let n = (of_char c :: nat) in
      if 97 \<le> n \<and> n \<le> 122 then char_of (n - 32) else c) s"

definition getRouteMethods :: "Route \<Rightarrow> string list" where
  "getRouteMethods route =
     map (\<lambda>method. toUpperCase method)
       (filter (\<lambda>method. method \<noteq> ''_all'') (route_methods route))"

definition getRouteMiddlewares :: "Route \<Rightarrow> string list" where
  "getRouteMiddlewares route =
     map (\<lambda>item. if item \<noteq> [] then item else ''anonymous'') (route_stack route)"

definition hasParams :: "string \<Rightarrow> nat \<Rightarrow> bool \<times> nat" where
  "hasParams expressPathRegExp lastIndex =
     test_global regexpExpressParamRegexp expressPathRegExp lastIndex"

text \<open>The replacement text \<open>'$1'\<close>: the first capture.\<close>

definition group1 :: "captures \<Rightarrow> string" where
  "group1 caps = (case caps 1 of None \<Rightarrow> [] | Some g \<Rightarrow> g)"

definition parseExpressRoute :: "Route \<Rightarrow> string \<Rightarrow> Endpoint list" where
  "parseExpressRoute route basePath =
     (let paths = (case route_path route of Inr ps \<Rightarrow> ps | Inl p \<Rightarrow> [p])
      in map (\<lambda>path.
           let completePath = (if basePath \<noteq> [] \<and> path = ''/'' then basePath else basePath @ path)
           in \<lparr>path = replace_global regexpExpressPathParamRegexp group1 completePath,
               methods = getRouteMethods route,
               middlewares = getRouteMiddlewares route\<rparr>) paths)"

text \<open>The replacer function of the loop; \<open>startsWith\<close> compares a prefix.\<close>

definition replaceParam :: "string \<Rightarrow> string \<Rightarrow> string" where
  "replaceParam paramId str =
     (if take 5 str = ''(?:'' @ BSL # ''/'' then BSL # ''/'' @ paramId else paramId)"

text \<open>
  The \<open>while\<close> loop of \<open>parseExpressPath\<close>. \<open>params[paramIndex]\<close> beyond the end of the array
  is \<open>undefined\<close> and reading its \<open>name\<close> throws a TypeError; before that every round
  increments \<open>paramIndex\<close>, which bounds the loop.
\<close>

function paramLoop :: "string \<Rightarrow> Key list \<Rightarrow> nat \<Rightarrow> nat \<Rightarrow> string outcome" where
  "paramLoop parsedRegExp params paramIndex lastIndex =
     (let (found, lastIndex') = hasParams parsedRegExp lastIndex
      in if found then
           (if paramIndex < length params then
              (let paramName = key_name (params ! paramIndex);
                   paramId = '':'' @ paramName
               in paramLoop
                    (replace_first regExpToReplaceExpressPathRegExpParams (replaceParam paramId) parsedRegExp)
                    params (Suc paramIndex) lastIndex')
            else (Inl TypeError, lastIndex'))
         else (Inr parsedRegExp, lastIndex'))"
  by pat_completeness auto
termination
  by (relation "measure (\<lambda>(s, params, i, li). length params - i)") auto

text \<open>
  \<open>expressPathRegExpExec\<close> is \<open>null\<close> when the pattern does not match and its element 1 is
  \<open>undefined\<close> when the second alternative matched; reading \<open>[1]\<close> of the one and calling
  \<open>replace\<close> on the other throw a TypeError.
\<close>

definition parseExpressPath :: "string \<Rightarrow> Key list \<Rightarrow> nat \<Rightarrow> string outcome" where
  "parseExpressPath expressPathRegExp params lastIndex =
     (let expressPathRegExpExec = exec regExpToParseExpressPathRegExp expressPathRegExp
      in case paramLoop expressPathRegExp params 0 lastIndex of
           (Inl e, lastIndex') \<Rightarrow> (Inl e, lastIndex')
         | (Inr parsedRegExp, lastIndex') \<Rightarrow>
             (let expressPathRegExpExec' =
                    (if parsedRegExp \<noteq> expressPathRegExp
                     then exec regExpToParseExpressPathRegExp parsedRegExp
                     else expressPathRegExpExec)
              in case expressPathRegExpExec' of
                   None \<Rightarrow> (Inl TypeError, lastIndex')
                 | Some (i, len, caps) \<Rightarrow>
                     (case caps 1 of
                        None \<Rightarrow> (Inl TypeError, lastIndex')
                      | Some g \<Rightarrow> (Inr (replace_global escapedSlashRegexp (\<lambda>_. ''/'') g), lastIndex'))))"

text \<open>
  One round of the \<open>forEach\<close> of \<open>addEndpoints\<close>: \<open>find\<close> gives the first entry with the path
  of the new endpoint; its methods are replaced in place, or the new endpoint is pushed.
\<close>

definition addEndpoint :: "Endpoint list \<Rightarrow> Endpoint \<Rightarrow> Endpoint list" where
  "addEndpoint currentEndpoints newEndpoint =
     (case List.extract (\<lambda>endpoint. path endpoint = path newEndpoint) currentEndpoints of
        Some (before, existingEndpoint, after) \<Rightarrow>
          (let newMethods = filter (\<lambda>method. method \<notin> set (methods existingEndpoint))
                              (methods newEndpoint)
           in before @ existingEndpoint\<lparr>methods := methods existingEndpoint @ newMethods\<rparr> # after)
      | None \<Rightarrow> currentEndpoints @ [newEndpoint])"

definition addEndpoints :: "Endpoint list \<Rightarrow> Endpoint list \<Rightarrow> Endpoint list" where
  "addEndpoints currentEndpoints endpointsToAdd = foldl addEndpoint currentEndpoints endpointsToAdd"

text \<open>Passing a pattern where a string is expected converts it; \<open>undefined\<close> becomes a word.\<close>

definition regexp_toString :: "string option \<Rightarrow> string" where
  "regexp_toString re = (case re of None \<Rightarrow> ''undefined'' | Some s \<Rightarrow> s)"

definition VALID_NAMES :: "Options \<Rightarrow> string list" where
  "VALID_NAMES options =
     (if includeMiddlewareRoutes options then STACK_ITEM_VALID_NAMES_INCLUDING_MIDDLEWARE_ROUTES
      else STACK_ITEM_VALID_NAMES)"

text \<open>
  \<open>parseEndpoints\<close>, \<open>parseStack\<close> and the body of its \<open>forEach\<close> (\<open>parseStackItem\<close>). The
  accumulator \<open>endpoints\<close> is passed and returned; an exception ends the traversal.
\<close>

function parseEndpoints :: "node \<Rightarrow> string \<Rightarrow> Endpoint list \<Rightarrow> Options \<Rightarrow> nat \<Rightarrow> Endpoint list outcome"
and parseStack :: "layer list \<Rightarrow> string \<Rightarrow> Endpoint list \<Rightarrow> Options \<Rightarrow> nat \<Rightarrow> Endpoint list outcome"
and parseStackItem :: "layer \<Rightarrow> string \<Rightarrow> Endpoint list \<Rightarrow> Options \<Rightarrow> nat \<Rightarrow> Endpoint list outcome"
where
  "parseEndpoints (Node st rt) basePath endpoints options lastIndex =
     (case (case st of Some s \<Rightarrow> Some s | None \<Rightarrow> (case rt of None \<Rightarrow> None | Some r \<Rightarrow> r)) of
        None \<Rightarrow>
          (if endpoints \<noteq> []
           then (Inr (addEndpoints endpoints [\<lparr>path = basePath, methods = [], middlewares = []\<rparr>]),
                 lastIndex)
           else (Inr endpoints, lastIndex))
      | Some stack \<Rightarrow> parseStack stack basePath endpoints options lastIndex)"
| "parseStack [] basePath endpoints options lastIndex = (Inr endpoints, lastIndex)"
| "parseStack (stackItem # rest) basePath endpoints options lastIndex =
     (case parseStackItem stackItem basePath endpoints options lastIndex of
        (Inl e, lastIndex') \<Rightarrow> (Inl e, lastIndex')
      | (Inr endpoints', lastIndex') \<Rightarrow> parseStack rest basePath endpoints' options lastIndex')"
| "parseStackItem (Layer route nm regexp keys pth handle) basePath endpoints options lastIndex =
     (case route of
        Some r \<Rightarrow> (Inr (addEndpoints endpoints (parseExpressRoute r basePath)), lastIndex)
      | None \<Rightarrow>
          (if (case nm of None \<Rightarrow> False | Some n \<Rightarrow> n \<in> set (VALID_NAMES options)) then
             (if test regExpToParseExpressPathRegExp (regexp_toString regexp) then
                (case parseExpressPath (regexp_toString regexp) keys lastIndex of
                   (Inl e, lastIndex') \<Rightarrow> (Inl e, lastIndex')
                 | (Inr parsedPath, lastIndex') \<Rightarrow>
                     parseEndpoints handle (basePath @ ''/'' @ parsedPath) endpoints options lastIndex')
              else if (pth = None \<or> pth = Some []) \<and> regexp \<noteq> None
                      \<and> regexp_toString regexp \<noteq> EXPRESS_ROOT_PATH_REGEXP_VALUE then
                parseEndpoints handle (basePath @ ''/'' @ '' RegExp('' @ regexp_toString regexp @ '') '')
                  endpoints options lastIndex
              else parseEndpoints handle basePath endpoints options lastIndex)
           else (Inr endpoints, lastIndex)))"
  by pat_completeness auto
termination
  by (relation "measure (\<lambda>x. case x of
        Inl (app, _) \<Rightarrow> size app
      | Inr (Inl (stack, _)) \<Rightarrow> size_list size stack
      | Inr (Inr (stackItem, _)) \<Rightarrow> size stackItem)")
     (auto split: option.splits)

text \<open>The options given override the defaults; \<open>None\<close> is a call without options.\<close>

definition expressListEndpoints :: "node \<Rightarrow> Options option \<Rightarrow> nat \<Rightarrow> Endpoint list outcome" where
  "expressListEndpoints app options lastIndex =
     (let mergedOptions = (case options of None \<Rightarrow> DEFAULT_OPTIONS | Some opts \<Rightarrow> opts)
      in parseEndpoints app [] [] mergedOptions lastIndex)"

section \<open>Notions used in the statements\<close>

text \<open>An endpoint is covered by an accumulator that has an entry with its path and all its methods.\<close>

definition covered :: "Endpoint list \<Rightarrow> Endpoint \<Rightarrow> bool" where
  "covered acc e = (\<exists>x \<in> set acc. path x = path e \<and> set (methods e) \<subseteq> set (methods x))"

text \<open>The routes of a routing tree, in the order of the declarations.\<close>

function node_routes :: "node \<Rightarrow> Route list"
and stack_routes :: "layer list \<Rightarrow> Route list"
and layer_routes :: "layer \<Rightarrow> Route list"
where
  "node_routes (Node st rt) =
     (case st of None \<Rightarrow> [] | Some s \<Rightarrow> stack_routes s) @
     (case rt of None \<Rightarrow> [] | Some None \<Rightarrow> [] | Some (Some s) \<Rightarrow> stack_routes s)"
| "stack_routes [] = []"
| "stack_routes (l # ls) = layer_routes l @ stack_routes ls"
| "layer_routes (Layer route nm regexp keys pth handle) =
     (case route of None \<Rightarrow> [] | Some r \<Rightarrow> [r]) @ node_routes handle"
  by pat_completeness auto
termination
  by (relation "measure (\<lambda>x. case x of
        Inl app \<Rightarrow> size app
      | Inr (Inl stack) \<Rightarrow> size_list size stack
      | Inr (Inr stackItem) \<Rightarrow> size stackItem)")
     (auto split: option.splits)

text \<open>
  Sample trees. \<open>health_app\<close>: an application whose router declares \<open>GET /health\<close> and
  \<open>POST /health\<close> as two routes. \<open>opaque_handler\<close>: a handler function, which has no stack.
\<close>

definition opaque_handler :: node where
  "opaque_handler = Node None None"

definition health_app :: node where
  "health_app = Node None (Some (Some
     [Layer (Some \<lparr>route_methods = [''get''], route_path = Inl ''/health'', route_stack = [[]]\<rparr>)
        (Some ''bound dispatch'') (Some (''/^'' @ BSL # ''/health'' @ BSL # ''/?$/i'')) [] None
        opaque_handler,
      Layer (Some \<lparr>route_methods = [''post''], route_path = Inl ''/health'', route_stack = [''save'']\<rparr>)
        (Some ''bound dispatch'') (Some (''/^'' @ BSL # ''/health'' @ BSL # ''/?$/i'')) [] None
        opaque_handler]))"

text \<open>
  Modelled from the spec: the compilation of a path template into a pattern is done by the
  host framework, not by the repository. The spec (4.1, 8) names two encodings of a
  parameter's capture group: encoding A, where the separator before the parameter is
  literal text outside the group, and encoding B, where the group itself begins with an
  escaped separator. A template is a list of segments, each a literal or a parameter;
  its pattern is the text that \<open>toString()\<close> gives for the framework's pattern of a mount
  path: every separator is escaped, and the pattern ends with \<^verbatim>\<open>\/?(?=\/|$)/i\<close>.
\<close>

datatype segment = Lit string | Param string

datatype encoding = EncodingA | EncodingB

definition pattern_tail :: string where
  "pattern_tail = BSL # ''/?(?='' @ BSL # ''/|$)/i''"

fun compile_segment :: "encoding \<Rightarrow> segment \<Rightarrow> string" where
  "compile_segment enc (Lit w) = BSL # ''/'' @ w"
| "compile_segment EncodingA (Param n) = BSL # ''/(?:([^'' @ BSL # ''/]+?))''"
| "compile_segment EncodingB (Param n) = ''(?:'' @ BSL # ''/([^'' @ BSL # ''/]+?))''"

definition compile :: "encoding \<Rightarrow> segment list \<Rightarrow> string" where
  "compile enc T = ''/^'' @ concat (map (compile_segment enc) T) @ pattern_tail"

fun paramsOf :: "segment list \<Rightarrow> Key list" where
  "paramsOf [] = []"
| "paramsOf (Lit w # T) = paramsOf T"
| "paramsOf (Param n # T) = \<lparr>key_name = n\<rparr> # paramsOf T"

fun segment_text :: "segment \<Rightarrow> string" where
  "segment_text (Lit w) = w"
| "segment_text (Param n) = '':'' @ n"

text \<open>The template as a string: \<open>/users/:id\<close> for \<open>[Lit ''users'', Param ''id'']\<close>.\<close>

definition template_text :: "segment list \<Rightarrow> string" where
  "template_text T = concat (map (\<lambda>s. ''/'' @ segment_text s) T)"

text \<open>
  Sample trees for a mount. \<open>users_router\<close> declares \<open>GET /users\<close>; \<open>mounted regexp\<close>
  is an application that mounts it with a layer whose pattern is \<open>regexp\<close> and that has
  no literal path and no keys.
\<close>

definition users_router :: node where
  "users_router = Node (Some
     [Layer (Some \<lparr>route_methods = [''get''], route_path = Inl ''/users'', route_stack = [''list'']\<rparr>)
        (Some ''bound dispatch'') (Some (''/^'' @ BSL # ''/users'' @ BSL # ''/?$/i'')) [] None
        opaque_handler]) None"

definition mounted :: "string option \<Rightarrow> node" where
  "mounted regexp = Node None (Some (Some
     [Layer None (Some ''router'') regexp [] None users_router]))"

text \<open>
  The templates of the round trip: a literal segment is a non-empty word of letters,
  digits, underscores and hyphens, a parameter name a non-empty word of letters, digits
  and underscores.
\<close>

fun wf_segment :: "segment \<Rightarrow> bool" where
  "wf_segment (Lit w) = (w \<noteq> [] \<and> list_all (\<lambda>c. is_word c \<or> c = CHR ''-'') w)"
| "wf_segment (Param n) = (n \<noteq> [] \<and> list_all is_word n)"

definition wf_template :: "segment list \<Rightarrow> bool" where
  "wf_template T = list_all wf_segment T"

text \<open>
  The body of a pattern once every capture group is replaced by its placeholder: each
  segment's text after an escaped separator.
\<close>

definition escaped_text :: "segment list \<Rightarrow> string" where
  "escaped_text T = concat (map (\<lambda>s. BSL # ''/'' @ segment_text s) T)"

text \<open>The repeated part \<^verbatim>\<open>(?:\\\/:?[\w\\.-]*)*\<close> of the first alternative of the recogniser.\<close>

abbreviation (input) segment_part :: regex where
  "segment_part \<equiv> Seq (Chr BSL) (Seq (Chr CHR ''/'') (Seq (Opt (Chr CHR '':'')) (Star path_class)))"

text \<open>
  The data model of the spec for a method table: its keys are pairwise different (they are
  the keys of an object) and are lower-case method names, that is ASCII without upper-case
  letters.
\<close>

definition lower_case_key :: "string \<Rightarrow> bool" where
  "lower_case_key k = list_all (\<lambda>c. (of_char c :: nat) < 128 \<and> \<not> (65 \<le> (of_char c :: nat) \<and> (of_char c :: nat) \<le> 90)) k"

definition wf_route :: "Route \<Rightarrow> bool" where
  "wf_route r = (distinct (route_methods r) \<and> list_all lower_case_key (route_methods r))"

text \<open>The elements of a list in the order of their first appearance, each once.\<close>

definition first_seen :: "'a list \<Rightarrow> 'a list" where
  "first_seen xs = foldl (\<lambda>seen x. if x \<in> set seen then seen else seen @ [x]) [] xs"

text \<open>
  \<open>orgs_app enc\<close>: an application that mounts a router declaring \<open>GET /members\<close> at
  \<open>/orgs/:orgId\<close>, the mount path compiled under the encoding \<open>enc\<close>.
\<close>

definition orgs_app :: "encoding \<Rightarrow> node" where
  "orgs_app enc = Node None (Some (Some
     [Layer None (Some ''router'') (Some (compile enc [Lit ''orgs'', Param ''orgId'']))
        [\<lparr>key_name = ''orgId''\<rparr>] None
        (Node (Some
           [Layer (Some \<lparr>route_methods = [''get''], route_path = Inl ''/members'', route_stack = [''list'']\<rparr>)
              (Some ''bound dispatch'') (Some (''/^'' @ BSL # ''/members'' @ BSL # ''/?$/i'')) [] None
              opaque_handler]) None)]))"

section \<open>The Endpoint Merger\<close>

lemma addEndpoint_Nil: "addEndpoint [] new = [new]"
  by (simp add: addEndpoint_def extract_Nil_code)

lemma addEndpoint_Cons:
  "addEndpoint (e # es) new =
     (if path e = path new
      then e\<lparr>methods := methods e @ filter (\<lambda>m. m \<notin> set (methods e)) (methods new)\<rparr> # es
      else e # addEndpoint es new)"
  by (simp add: addEndpoint_def extract_Cons_code split: option.splits)

lemma addEndpoints_Nil: "addEndpoints acc [] = acc"
  by (simp add: addEndpoints_def)

lemma addEndpoints_Cons: "addEndpoints acc (e # es) = addEndpoints (addEndpoint acc e) es"
  by (simp add: addEndpoints_def)

lemma addEndpoints_append: "addEndpoints acc (xs @ ys) = addEndpoints (addEndpoints acc xs) ys"
  by (simp add: addEndpoints_def)

lemma paths_addEndpoint:
  "map path (addEndpoint acc new) =
     (if path new \<in> set (map path acc) then map path acc else map path acc @ [path new])"
  by (induction acc) (auto simp: addEndpoint_Nil addEndpoint_Cons)

lemma distinct_addEndpoint:
  "distinct (map path acc) \<Longrightarrow> distinct (map path (addEndpoint acc new))"
  by (simp add: paths_addEndpoint)

lemma distinct_addEndpoints:
  "distinct (map path acc) \<Longrightarrow> distinct (map path (addEndpoints acc news))"
  by (induction news arbitrary: acc) (simp_all add: addEndpoints_Nil addEndpoints_Cons distinct_addEndpoint)

lemma length_addEndpoint: "length acc \<le> length (addEndpoint acc new)"
  by (induction acc) (auto simp: addEndpoint_Nil addEndpoint_Cons)

lemma addEndpoint_not_Nil: "addEndpoint acc new \<noteq> []"
  by (cases acc) (auto simp: addEndpoint_Nil addEndpoint_Cons)

lemma paths_addEndpoints_mono:
  "set (map path acc) \<subseteq> set (map path (addEndpoints acc news))"
proof (induction news arbitrary: acc)
  case Nil
  then show ?case by (simp add: addEndpoints_Nil)
next
  case (Cons e es)
  have "set (map path acc) \<subseteq> set (map path (addEndpoint acc e))"
    by (auto simp: paths_addEndpoint)
  with Cons[of "addEndpoint acc e"] show ?case
    unfolding addEndpoints_Cons by blast
qed

lemma paths_addEndpoints_new:
  "path ` set news \<subseteq> set (map path (addEndpoints acc news))"
proof (induction news arbitrary: acc)
  case Nil
  then show ?case by simp
next
  case (Cons e es)
  have "path e \<in> set (map path (addEndpoint acc e))"
    by (auto simp: paths_addEndpoint)
  with paths_addEndpoints_mono[of "addEndpoint acc e" es] Cons[of "addEndpoint acc e"]
  show ?case
    unfolding addEndpoints_Cons by auto
qed

lemma addEndpoint_covered_id:
  "distinct (map path acc) \<Longrightarrow> covered acc e \<Longrightarrow> addEndpoint acc e = acc"
proof (induction acc)
  case Nil
  then show ?case by (simp add: covered_def)
next
  case (Cons x xs)
  show ?case
  proof (cases "path x = path e")
    case True
    from Cons.prems obtain y where y: "y \<in> set (x # xs)" "path y = path e"
        "set (methods e) \<subseteq> set (methods y)"
      by (auto simp: covered_def)
    from Cons.prems have "path x \<notin> path ` set xs"
      by simp
    with True y have "y = x"
      by (metis image_eqI set_ConsD)
    with y have "set (methods e) \<subseteq> set (methods x)"
      by simp
    then have "filter (\<lambda>m. m \<notin> set (methods x)) (methods e) = []"
      by (auto simp: filter_empty_conv)
    with True show ?thesis by (simp add: addEndpoint_Cons)
  next
    case False
    with Cons.prems have "covered xs e" by (auto simp: covered_def)
    with Cons False show ?thesis by (simp add: addEndpoint_Cons)
  qed
qed

lemma covered_addEndpoint_mono: "covered acc e \<Longrightarrow> covered (addEndpoint acc e') e"
proof (induction acc)
  case Nil
  then show ?case by (simp add: covered_def)
next
  case (Cons x xs)
  show ?case
  proof (cases "path x = path e'")
    case True
    with Cons.prems show ?thesis
      by (auto simp: addEndpoint_Cons covered_def)
  next
    case False
    from Cons.prems consider "path x = path e \<and> set (methods e) \<subseteq> set (methods x)" | "covered xs e"
      by (auto simp: covered_def)
    then show ?thesis
    proof cases
      case 1
      with False show ?thesis by (auto simp: addEndpoint_Cons covered_def)
    next
      case 2
      then have "covered (addEndpoint xs e') e" by (rule Cons.IH)
      with False show ?thesis by (auto simp: addEndpoint_Cons covered_def)
    qed
  qed
qed

lemma covered_addEndpoint_self: "covered (addEndpoint acc e) e"
  by (induction acc) (auto simp: addEndpoint_Nil addEndpoint_Cons covered_def)

lemma covered_addEndpoints_mono: "covered acc e \<Longrightarrow> covered (addEndpoints acc news) e"
  by (induction news arbitrary: acc)
     (simp_all add: addEndpoints_Nil addEndpoints_Cons covered_addEndpoint_mono)

lemma covered_addEndpoints_all: "e \<in> set news \<Longrightarrow> covered (addEndpoints acc news) e"
proof (induction news arbitrary: acc)
  case Nil
  then show ?case by simp
next
  case (Cons x xs)
  then show ?case
    by (auto simp: addEndpoints_Cons covered_addEndpoint_self covered_addEndpoints_mono)
qed

lemma addEndpoints_covered_id:
  "distinct (map path acc) \<Longrightarrow> \<forall>e \<in> set news. covered acc e \<Longrightarrow> addEndpoints acc news = acc"
  by (induction news) (simp_all add: addEndpoints_Nil addEndpoints_Cons addEndpoint_covered_id)

text \<open>
  Claim C5. Endpoint merging is idempotent: merging a list of endpoints into the empty
  accumulator and then merging the same list into the result gives the accumulator of the
  first merge, entry by entry (paths, method lists in their order, middlewares).
  The second merge finds every endpoint covered (\<open>addEndpoints_covered_id\<close>), which also
  holds for the endpoints as the first merge left them, since it only adds methods.
\<close>

theorem C5_merge_idempotent:
  "addEndpoints (addEndpoints [] E) E = addEndpoints [] E"
proof -
  have "distinct (map path (addEndpoints [] E))"
    by (rule distinct_addEndpoints) simp
  moreover have "\<forall>e \<in> set E. covered (addEndpoints [] E) e"
    by (simp add: covered_addEndpoints_all)
  ultimately show ?thesis
    by (rule addEndpoints_covered_id)
qed

section \<open>The Stack Walker\<close>

lemma parseStackItem_route:
  "parseStackItem (Layer (Some r) nm regexp keys pth handle) basePath endpoints options lastIndex =
     (Inr (addEndpoints endpoints (parseExpressRoute r basePath)), lastIndex)"
  by simp

lemma parseStackItem_skip:
  "\<not> (case nm of None \<Rightarrow> False | Some n \<Rightarrow> n \<in> set (VALID_NAMES options)) \<Longrightarrow>
   parseStackItem (Layer None nm regexp keys pth handle) basePath endpoints options lastIndex =
     (Inr endpoints, lastIndex)"
  by simp

lemma parseStackItem_mount_cases:
  assumes "parseStackItem (Layer None nm regexp keys pth handle) basePath endpoints options lastIndex
             = (Inr res, li')"
  shows "(res = endpoints \<and> li' = lastIndex) \<or>
         (\<exists>base' li1. parseEndpoints handle base' endpoints options li1 = (Inr res, li'))"
proof (cases "case nm of None \<Rightarrow> False | Some n \<Rightarrow> n \<in> set (VALID_NAMES options)")
  case False
  with assms show ?thesis by simp
next
  case valid: True
  show ?thesis
  proof (cases "test regExpToParseExpressPathRegExp (regexp_toString regexp)")
    case True
    with valid assms show ?thesis
      by (simp split: prod.splits sum.splits) blast
  next
    case False
    with valid assms show ?thesis
      by (simp split: if_splits) blast+
  qed
qed

lemma parseStack_Cons_Inr:
  assumes "parseStack (l # ls) basePath endpoints options lastIndex = (Inr res, li')"
  obtains mid li1 where "parseStackItem l basePath endpoints options lastIndex = (Inr mid, li1)"
    and "parseStack ls basePath mid options li1 = (Inr res, li')"
  using assms by (simp split: prod.splits sum.splits)

lemma parseEndpoints_Inr_cases:
  assumes "parseEndpoints (Node st rt) basePath endpoints options lastIndex = (Inr res, li')"
  shows "(st = None \<and> (rt = None \<or> rt = Some None) \<and> li' = lastIndex \<and>
            res = (if endpoints \<noteq> []
                   then addEndpoints endpoints [\<lparr>path = basePath, methods = [], middlewares = []\<rparr>]
                   else endpoints)) \<or>
         (\<exists>s. (st = Some s \<or> (st = None \<and> rt = Some (Some s))) \<and>
              parseStack s basePath endpoints options lastIndex = (Inr res, li'))"
  using assms by (auto split: option.splits if_splits)

lemma walker_invariant_aux:
  assumes merge: "\<And>acc news. I acc \<Longrightarrow> set news \<subseteq> S \<Longrightarrow> I (addEndpoints acc news)"
      and implicit: "\<And>base. \<lparr>path = base, methods = [], middlewares = []\<rparr> \<in> S"
  shows "\<forall>base acc li res li'.
           (\<forall>r \<in> set (node_routes app). \<forall>b. set (parseExpressRoute r b) \<subseteq> S) \<longrightarrow> I acc \<longrightarrow>
           parseEndpoints app base acc opts li = (Inr res, li') \<longrightarrow> I res"
    and "\<forall>base acc li res li'.
           (\<forall>r \<in> set (stack_routes stack). \<forall>b. set (parseExpressRoute r b) \<subseteq> S) \<longrightarrow> I acc \<longrightarrow>
           parseStack stack base acc opts li = (Inr res, li') \<longrightarrow> I res"
    and "\<forall>base acc li res li'.
           (\<forall>r \<in> set (layer_routes item). \<forall>b. set (parseExpressRoute r b) \<subseteq> S) \<longrightarrow> I acc \<longrightarrow>
           parseStackItem item base acc opts li = (Inr res, li') \<longrightarrow> I res"
proof (induction app and stack and item rule: node_routes_stack_routes_layer_routes.induct)
  case (1 st rt)
  show ?case
  proof (intro allI impI)
    fix base acc li res li'
    assume routes: "\<forall>r \<in> set (node_routes (Node st rt)). \<forall>b. set (parseExpressRoute r b) \<subseteq> S"
      and acc: "I acc"
      and run: "parseEndpoints (Node st rt) base acc opts li = (Inr res, li')"
    from parseEndpoints_Inr_cases[OF run]
    consider "res = (if acc \<noteq> [] then addEndpoints acc [\<lparr>path = base, methods = [], middlewares = []\<rparr>] else acc)"
      | s where "st = Some s \<or> st = None \<and> rt = Some (Some s)"
          "parseStack s base acc opts li = (Inr res, li')"
      by blast
    then show "I res"
    proof cases
      case a: 1
      from acc merge[OF acc, of "[\<lparr>path = base, methods = [], middlewares = []\<rparr>]"] implicit
      show ?thesis unfolding a by (cases "acc = []") simp_all
    next
      case b: (2 s)
      from b(1) routes have "\<forall>r \<in> set (stack_routes s). \<forall>b. set (parseExpressRoute r b) \<subseteq> S"
        by auto
      moreover from b(1) 1 have "\<forall>base acc li res li'.
           (\<forall>r \<in> set (stack_routes s). \<forall>b. set (parseExpressRoute r b) \<subseteq> S) \<longrightarrow> I acc \<longrightarrow>
           parseStack s base acc opts li = (Inr res, li') \<longrightarrow> I res"
        by blast
      ultimately show ?thesis using acc b(2) by blast
    qed
  qed
next
  case 2
  show ?case by simp
next
  case (3 l ls)
  show ?case
  proof (intro allI impI)
    fix base acc li res li'
    assume routes: "\<forall>r \<in> set (stack_routes (l # ls)). \<forall>b. set (parseExpressRoute r b) \<subseteq> S"
      and acc: "I acc"
      and run: "parseStack (l # ls) base acc opts li = (Inr res, li')"
    from run obtain mid li1 where
        a: "parseStackItem l base acc opts li = (Inr mid, li1)"
        and b: "parseStack ls base mid opts li1 = (Inr res, li')"
      by (rule parseStack_Cons_Inr)
    from routes have rl: "\<forall>r \<in> set (layer_routes l). \<forall>b. set (parseExpressRoute r b) \<subseteq> S"
      and rls: "\<forall>r \<in> set (stack_routes ls). \<forall>b. set (parseExpressRoute r b) \<subseteq> S"
      by auto
    from 3(1) rl acc a have "I mid" by blast
    with 3(2) rls b show "I res" by blast
  qed
next
  case (4 route nm regexp keys pth handle)
  show ?case
  proof (intro allI impI)
    fix base acc li res li'
    assume routes: "\<forall>r \<in> set (layer_routes (Layer route nm regexp keys pth handle)).
                      \<forall>b. set (parseExpressRoute r b) \<subseteq> S"
      and acc: "I acc"
      and run: "parseStackItem (Layer route nm regexp keys pth handle) base acc opts li = (Inr res, li')"
    show "I res"
    proof (cases route)
      case (Some r)
      with run have "res = addEndpoints acc (parseExpressRoute r base)"
        by simp
      moreover from Some routes have "set (parseExpressRoute r base) \<subseteq> S"
        by simp
      ultimately show ?thesis using merge[OF acc] by simp
    next
      case None
      from routes None have rh: "\<forall>r \<in> set (node_routes handle). \<forall>b. set (parseExpressRoute r b) \<subseteq> S"
        by simp
      from run None parseStackItem_mount_cases[of nm regexp keys pth handle base acc opts li res li']
      consider "res = acc" | base' li1 where "parseEndpoints handle base' acc opts li1 = (Inr res, li')"
        by blast
      then show ?thesis
      proof cases
        case 1
        with acc show ?thesis by simp
      next
        case 2
        with 4 rh acc show ?thesis by blast
      qed
    qed
  qed
qed

lemma walker_invariant:
  assumes merge: "\<And>acc news. I acc \<Longrightarrow> I (addEndpoints acc news)"
  shows "I acc \<Longrightarrow> parseEndpoints app base acc opts li = (Inr res, li') \<Longrightarrow> I res"
    and "I acc \<Longrightarrow> parseStack stack base acc opts li = (Inr res, li') \<Longrightarrow> I res"
    and "I acc \<Longrightarrow> parseStackItem item base acc opts li = (Inr res, li') \<Longrightarrow> I res"
proof -
  note aux = walker_invariant_aux[where I = I and S = UNIV and opts = opts, OF merge UNIV_I, rule_format]
  show "I acc \<Longrightarrow> parseEndpoints app base acc opts li = (Inr res, li') \<Longrightarrow> I res"
    by (rule aux(1)[of app acc base li res li']) simp_all
  show "I acc \<Longrightarrow> parseStack stack base acc opts li = (Inr res, li') \<Longrightarrow> I res"
    by (rule aux(2)[of stack acc base li res li']) simp_all
  show "I acc \<Longrightarrow> parseStackItem item base acc opts li = (Inr res, li') \<Longrightarrow> I res"
    by (rule aux(3)[of item acc base li res li']) simp_all
qed


lemma paths_addEndpoints_mono_image:
  "path ` set acc \<subseteq> path ` set (addEndpoints acc news)"
  using paths_addEndpoints_mono[of acc news] by simp

lemma walker_paths_mono:
  shows "parseEndpoints app base acc opts li = (Inr res, li') \<Longrightarrow> p \<in> path ` set acc \<Longrightarrow> p \<in> path ` set res"
    and "parseStack stack base acc opts li = (Inr res, li') \<Longrightarrow> p \<in> path ` set acc \<Longrightarrow> p \<in> path ` set res"
    and "parseStackItem item base acc opts li = (Inr res, li') \<Longrightarrow> p \<in> path ` set acc \<Longrightarrow> p \<in> path ` set res"
proof -
  have step: "\<And>a news. p \<in> path ` set a \<Longrightarrow> p \<in> path ` set (addEndpoints a news)"
    using paths_addEndpoints_mono_image by (rule subsetD)
  show "parseEndpoints app base acc opts li = (Inr res, li') \<Longrightarrow> p \<in> path ` set acc \<Longrightarrow> p \<in> path ` set res"
    using walker_invariant(1)[where I = "\<lambda>a. p \<in> path ` set a", OF step] .
  show "parseStack stack base acc opts li = (Inr res, li') \<Longrightarrow> p \<in> path ` set acc \<Longrightarrow> p \<in> path ` set res"
    using walker_invariant(2)[where I = "\<lambda>a. p \<in> path ` set a", OF step] .
  show "parseStackItem item base acc opts li = (Inr res, li') \<Longrightarrow> p \<in> path ` set acc \<Longrightarrow> p \<in> path ` set res"
    using walker_invariant(3)[where I = "\<lambda>a. p \<in> path ` set a", OF step] .
qed

text \<open>
  Claim C4. The paths of the list that \<open>expressListEndpoints\<close> returns are pairwise distinct,
  for every routing tree, every options value and every state of the pattern object: the
  accumulator starts empty, and merging keeps the paths distinct, since an endpoint whose
  path is present is merged into the entry found and only an endpoint with a new path is
  appended.
\<close>

theorem C4_paths_distinct:
  "expressListEndpoints app options lastIndex = (Inr endpoints, lastIndex') \<Longrightarrow>
   distinct (map path endpoints)"
proof -
  assume "expressListEndpoints app options lastIndex = (Inr endpoints, lastIndex')"
  then have run: "parseEndpoints app [] []
      (case options of None \<Rightarrow> DEFAULT_OPTIONS | Some opts \<Rightarrow> opts) lastIndex = (Inr endpoints, lastIndex')"
    by (simp add: expressListEndpoints_def)
  show ?thesis
  proof (rule walker_invariant(1)[where I = "\<lambda>a. distinct (map path a)"])
    show "\<And>acc news. distinct (map path acc) \<Longrightarrow> distinct (map path (addEndpoints acc news))"
      by (rule distinct_addEndpoints)
    show "distinct (map path ([] :: Endpoint list))"
      by simp
    show "parseEndpoints app [] [] (case options of None \<Rightarrow> DEFAULT_OPTIONS | Some opts \<Rightarrow> opts)
            lastIndex = (Inr endpoints, lastIndex')"
      by (rule run)
  qed
qed

section \<open>Method lists\<close>

lemma toUpperCase_no_lower_case:
  "c \<in> set (toUpperCase k) \<Longrightarrow> \<not> (97 \<le> (of_char c :: nat) \<and> (of_char c :: nat) \<le> 122)"
proof -
  assume "c \<in> set (toUpperCase k)"
  then obtain x where c: "c = (let n = (of_char x :: nat) in if 97 \<le> n \<and> n \<le> 122 then char_of (n - 32) else x)"
    by (auto simp: toUpperCase_def)
  show ?thesis
  proof (cases "97 \<le> (of_char x :: nat) \<and> (of_char x :: nat) \<le> 122")
    case True
    then have "(of_char x :: nat) - 32 < 256"
      by linarith
    then have "((of_char x :: nat) - 32) mod 256 = (of_char x :: nat) - 32"
      by (rule mod_less)
    with True c have "(of_char c :: nat) = of_char x - 32"
      by (simp add: Let_def)
    with True show ?thesis by linarith
  next
    case False
    with c show ?thesis by (simp add: Let_def)
  qed
qed

lemma toUpperCase_not_wildcard: "toUpperCase k \<noteq> ''_all''"
proof
  assume "toUpperCase k = ''_all''"
  then have "CHR ''a'' \<in> set (toUpperCase k)"
    by simp
  from toUpperCase_no_lower_case[OF this] have "\<not> (97 \<le> (of_char CHR ''a'' :: nat) \<and> (of_char CHR ''a'' :: nat) \<le> 122)" .
  moreover have "(of_char CHR ''a'' :: nat) = 97"
    by simp
  ultimately show False
    by simp
qed

lemma upper_char_inj:
  fixes c d :: char
  assumes "\<not> (65 \<le> (of_char c :: nat) \<and> (of_char c :: nat) \<le> 90)"
      and "\<not> (65 \<le> (of_char d :: nat) \<and> (of_char d :: nat) \<le> 90)"
      and eq: "(let n = (of_char c :: nat) in if 97 \<le> n \<and> n \<le> 122 then char_of (n - 32) else c)
             = (let n = (of_char d :: nat) in if 97 \<le> n \<and> n \<le> 122 then char_of (n - 32) else d)"
  shows "c = d"
proof -
  let ?n = "of_char c :: nat" and ?m = "of_char d :: nat"
  consider "97 \<le> ?n \<and> ?n \<le> 122" "97 \<le> ?m \<and> ?m \<le> 122"
    | "97 \<le> ?n \<and> ?n \<le> 122" "\<not> (97 \<le> ?m \<and> ?m \<le> 122)"
    | "\<not> (97 \<le> ?n \<and> ?n \<le> 122)" "97 \<le> ?m \<and> ?m \<le> 122"
    | "\<not> (97 \<le> ?n \<and> ?n \<le> 122)" "\<not> (97 \<le> ?m \<and> ?m \<le> 122)"
    by blast
  then show ?thesis
  proof cases
    case 1
    with eq have "(char_of (?n - 32) :: char) = char_of (?m - 32)"
      by (simp add: Let_def)
    then have "(of_char (char_of (?n - 32) :: char) :: nat) = of_char (char_of (?m - 32) :: char)"
      by simp
    moreover from 1 have "?n - 32 < 256" "?m - 32 < 256"
      by linarith+
    then have "(?n - 32) mod 256 = ?n - 32" "(?m - 32) mod 256 = ?m - 32"
      by (simp_all only: mod_less)
    ultimately have "?n - 32 = ?m - 32"
      by simp
    with 1 have "?n = ?m"
      by linarith
    then show ?thesis by simp
  next
    case 2
    with eq have "d = char_of (?n - 32)"
      by (simp add: Let_def)
    then have "?m = of_char (char_of (?n - 32) :: char)"
      by simp
    moreover from 2 have "?n - 32 < 256"
      by linarith
    then have "(?n - 32) mod 256 = ?n - 32"
      by (rule mod_less)
    ultimately have "?m = ?n - 32" by simp
    with 2 assms(2) show ?thesis by linarith
  next
    case 3
    with eq have "c = char_of (?m - 32)"
      by (simp add: Let_def)
    then have "?n = of_char (char_of (?m - 32) :: char)"
      by simp
    moreover from 3 have "?m - 32 < 256"
      by linarith
    then have "(?m - 32) mod 256 = ?m - 32"
      by (rule mod_less)
    ultimately have "?n = ?m - 32" by simp
    with 3 assms(1) show ?thesis by linarith
  next
    case 4
    with eq show ?thesis by (simp add: Let_def)
  qed
qed

lemma toUpperCase_inj:
  assumes k: "lower_case_key k" and k': "lower_case_key k'"
      and eq: "toUpperCase k = toUpperCase k'"
  shows "k = k'"
proof (rule list.inj_map_strong[OF _ eq[unfolded toUpperCase_def]])
  fix c d
  assume "c \<in> set k" and "d \<in> set k'"
  with k k' have "\<not> (65 \<le> (of_char c :: nat) \<and> (of_char c :: nat) \<le> 90)"
      and "\<not> (65 \<le> (of_char d :: nat) \<and> (of_char d :: nat) \<le> 90)"
    by (simp_all add: lower_case_key_def list_all_iff)
  moreover assume "(let n = (of_char c :: nat) in if 97 \<le> n \<and> n \<le> 122 then char_of (n - 32) else c)
             = (let n = (of_char d :: nat) in if 97 \<le> n \<and> n \<le> 122 then char_of (n - 32) else d)"
  ultimately show "c = d"
    by (rule upper_char_inj)
qed

lemma getRouteMethods_distinct:
  assumes "wf_route r"
  shows "distinct (getRouteMethods r)"
proof -
  from assms have d: "distinct (route_methods r)" and l: "\<forall>k \<in> set (route_methods r). lower_case_key k"
    by (simp_all add: wf_route_def list_all_iff)
  have "inj_on toUpperCase (set (filter (\<lambda>method. method \<noteq> ''_all'') (route_methods r)))"
  proof (rule inj_onI)
    fix x y
    assume "x \<in> set (filter (\<lambda>method. method \<noteq> ''_all'') (route_methods r))"
      and "y \<in> set (filter (\<lambda>method. method \<noteq> ''_all'') (route_methods r))"
    with l have "lower_case_key x" "lower_case_key y" by simp_all
    moreover assume "toUpperCase x = toUpperCase y"
    ultimately show "x = y" by (rule toUpperCase_inj)
  qed
  with d show ?thesis
    by (simp add: getRouteMethods_def distinct_map)
qed

lemma getRouteMethods_keys:
  "m \<in> set (getRouteMethods r) \<Longrightarrow> m \<noteq> ''_all'' \<and> (\<exists>k \<in> set (route_methods r). m = toUpperCase k)"
  using toUpperCase_not_wildcard by (auto simp: getRouteMethods_def)

lemma first_seen_step_distinct:
  "distinct ys \<Longrightarrow>
   foldl (\<lambda>seen x. if x \<in> set seen then seen else seen @ [x]) acc ys
     = acc @ filter (\<lambda>y. y \<notin> set acc) ys"
proof (induction ys arbitrary: acc)
  case Nil
  show ?case by simp
next
  case (Cons y ys)
  then have y: "y \<notin> set ys" and d: "distinct ys"
    by simp_all
  show ?case
  proof (cases "y \<in> set acc")
    case True
    with Cons.IH[OF d, of acc] show ?thesis by simp
  next
    case False
    from y have "filter (\<lambda>x. x \<notin> set (acc @ [y])) ys = filter (\<lambda>x. x \<notin> set acc) ys"
      by (intro filter_cong) auto
    with False Cons.IH[OF d, of "acc @ [y]"] show ?thesis by simp
  qed
qed

lemma first_seen_append_distinct:
  "distinct ys \<Longrightarrow>
   first_seen (xs @ ys) = first_seen xs @ filter (\<lambda>y. y \<notin> set (first_seen xs)) ys"
  by (simp add: first_seen_def first_seen_step_distinct)

lemma first_seen_distinct: "distinct xs \<Longrightarrow> first_seen xs = xs"
  using first_seen_step_distinct[of xs "[]"] by (simp add: first_seen_def)

lemma addEndpoint_fresh:
  "path new \<notin> path ` set acc \<Longrightarrow> addEndpoint acc new = acc @ [new]"
  by (induction acc) (auto simp: addEndpoint_Nil addEndpoint_Cons)

lemma addEndpoint_existing:
  "distinct (map path acc) \<Longrightarrow> path new \<in> path ` set acc \<Longrightarrow>
   addEndpoint acc new =
     map (\<lambda>e. if path e = path new
              then e\<lparr>methods := methods e @ filter (\<lambda>m. m \<notin> set (methods e)) (methods new)\<rparr>
              else e) acc"
proof (induction acc)
  case Nil
  then show ?case by simp
next
  case (Cons x xs)
  show ?case
  proof (cases "path x = path new")
    case True
    with Cons.prems(1) have "path new \<notin> path ` set xs"
      by simp
    then have "\<forall>e \<in> set xs. path e \<noteq> path new"
      by (metis image_eqI)
    then have "map (\<lambda>e. if path e = path new
              then e\<lparr>methods := methods e @ filter (\<lambda>m. m \<notin> set (methods e)) (methods new)\<rparr>
              else e) xs = xs"
      by (induction xs) auto
    with True show ?thesis by (simp add: addEndpoint_Cons)
  next
    case False
    with Cons show ?thesis by (auto simp: addEndpoint_Cons)
  qed
qed

text \<open>
  The accumulator that merging builds from a sequence of candidates: one entry for each
  path, and the methods of an entry are the methods of the candidates with its path in
  the order of their first appearance.
\<close>

lemma addEndpoints_first_seen:
  assumes "\<forall>c \<in> set cands. distinct (methods c)"
  shows "distinct (map path (addEndpoints [] cands))
       \<and> path ` set (addEndpoints [] cands) = path ` set cands
       \<and> (\<forall>e \<in> set (addEndpoints [] cands).
            methods e = first_seen (concat (map methods (filter (\<lambda>c. path c = path e) cands))))"
  using assms
proof (induction cands rule: rev_induct)
  case Nil
  show ?case by (simp add: addEndpoints_Nil)
next
  case (snoc new cands)
  let ?acc = "addEndpoints [] cands"
  from snoc have d: "distinct (map path ?acc)" and p: "path ` set ?acc = path ` set cands"
      and m: "\<forall>e \<in> set ?acc. methods e = first_seen (concat (map methods (filter (\<lambda>c. path c = path e) cands)))"
      and dn: "distinct (methods new)"
    by simp_all
  have res: "addEndpoints [] (cands @ [new]) = addEndpoint ?acc new"
    by (simp add: addEndpoints_append addEndpoints_Cons addEndpoints_Nil)
  have dist: "distinct (map path (addEndpoint ?acc new))"
    using d by (rule distinct_addEndpoint)
  have paths: "path ` set (addEndpoint ?acc new) = path ` set (cands @ [new])"
    using p paths_addEndpoint[of ?acc new] by (metis (no_types, lifting) image_set insert_absorb list.set(1) list.set(2) list.simps(15) set_append Un_insert_right sup_bot.right_neutral image_insert)
  have meth: "methods e = first_seen (concat (map methods (filter (\<lambda>c. path c = path e) (cands @ [new]))))"
    if e: "e \<in> set (addEndpoint ?acc new)" for e
  proof (cases "path new \<in> path ` set ?acc")
    case False
    with e have "e \<in> set ?acc \<or> e = new"
      by (auto simp: addEndpoint_fresh)
    then show ?thesis
    proof
      assume a: "e \<in> set ?acc"
      with False have "path new \<noteq> path e" by auto
      with a m show ?thesis by simp
    next
      assume a: "e = new"
      from False p have "path new \<notin> path ` set cands"
        by simp
      then have "\<forall>c \<in> set cands. path c \<noteq> path new"
        by (metis image_eqI)
      then have "filter (\<lambda>c. path c = path new) cands = []"
        by (simp add: filter_empty_conv)
      with a dn show ?thesis by (simp add: first_seen_distinct)
    qed
  next
    case True
    from e addEndpoint_existing[OF d True] obtain x where x: "x \<in> set ?acc"
        and ex: "e = (if path x = path new
              then x\<lparr>methods := methods x @ filter (\<lambda>m. m \<notin> set (methods x)) (methods new)\<rparr>
              else x)"
      by auto
    from x m have mx: "methods x = first_seen (concat (map methods (filter (\<lambda>c. path c = path x) cands)))"
      by simp
    show ?thesis
    proof (cases "path x = path new")
      case same: True
      with ex have "path e = path new" and "methods e = methods x @ filter (\<lambda>m. m \<notin> set (methods x)) (methods new)"
        by simp_all
      with same mx dn show ?thesis
        by (simp add: first_seen_append_distinct)
    next
      case other: False
      with ex have "e = x" by simp
      with other mx show ?thesis by simp
    qed
  qed
  from dist paths meth show ?case
    unfolding res by blast
qed

lemma first_seen_step_set:
  "set (foldl (\<lambda>seen x. if x \<in> set seen then seen else seen @ [x]) acc xs) = set acc \<union> set xs"
  by (induction xs arbitrary: acc) auto

lemma first_seen_step_distinct_result:
  "distinct acc \<Longrightarrow> distinct (foldl (\<lambda>seen x. if x \<in> set seen then seen else seen @ [x]) acc xs)"
  by (induction xs arbitrary: acc) auto

lemma set_first_seen: "set (first_seen xs) = set xs"
  by (simp add: first_seen_def first_seen_step_set)

lemma distinct_first_seen: "distinct (first_seen xs)"
  by (simp add: first_seen_def first_seen_step_distinct_result)

text \<open>What one round of the merge does to the entries.\<close>

lemma addEndpoint_entries:
  "e' \<in> set (addEndpoint acc new) \<Longrightarrow>
   e' \<in> set acc \<or> e' = new \<or>
   (\<exists>e \<in> set acc. path e = path new \<and>
      e' = e\<lparr>methods := methods e @ filter (\<lambda>m. m \<notin> set (methods e)) (methods new)\<rparr>)"
  by (induction acc) (auto simp: addEndpoint_Nil addEndpoint_Cons split: if_splits)

lemma addEndpoints_methods_origin:
  "e \<in> set (addEndpoints acc news) \<Longrightarrow> m \<in> set (methods e) \<Longrightarrow>
   \<exists>x \<in> set acc \<union> set news. m \<in> set (methods x)"
proof (induction news arbitrary: acc)
  case Nil
  then show ?case by (auto simp: addEndpoints_Nil)
next
  case (Cons new news)
  from Cons.prems have "e \<in> set (addEndpoints (addEndpoint acc new) news)"
    by (simp add: addEndpoints_Cons)
  from Cons.IH[OF this Cons.prems(2)] obtain x where
      x: "x \<in> set (addEndpoint acc new) \<union> set news" and m: "m \<in> set (methods x)"
    by blast
  show ?case
  proof (cases "x \<in> set news")
    case True
    with m show ?thesis by auto
  next
    case False
    with x have "x \<in> set (addEndpoint acc new)" by simp
    from addEndpoint_entries[OF this] m have "\<exists>y \<in> set acc \<union> {new}. m \<in> set (methods y)"
      by auto
    then show ?thesis by auto
  qed
qed

text \<open>The endpoints that the walker hands to the merger.\<close>

lemma walker_candidates:
  assumes run: "parseEndpoints app base [] opts li = (Inr endpoints, li')"
  shows "\<exists>cands. endpoints = addEndpoints [] cands \<and>
           (\<forall>c \<in> set cands. (\<exists>r \<in> set (node_routes app). methods c = getRouteMethods r) \<or> methods c = [])"
proof -
  let ?S = "{c. (\<exists>r \<in> set (node_routes app). methods c = getRouteMethods r) \<or> methods c = []}"
  let ?I = "\<lambda>acc. \<exists>cands. acc = addEndpoints [] cands \<and> set cands \<subseteq> ?S"
  have merge: "?I (addEndpoints acc news)" if "?I acc" and "set news \<subseteq> ?S" for acc news
  proof -
    from that obtain cands where "acc = addEndpoints [] cands" and "set cands \<subseteq> ?S"
      by blast
    with that(2) have "addEndpoints acc news = addEndpoints [] (cands @ news) \<and> set (cands @ news) \<subseteq> ?S"
      by (simp add: addEndpoints_append)
    then show ?thesis by blast
  qed
  have implicit: "\<lparr>path = b, methods = [], middlewares = []\<rparr> \<in> ?S" for b
    by simp
  have routes: "\<forall>r \<in> set (node_routes app). \<forall>b. set (parseExpressRoute r b) \<subseteq> ?S"
    by (auto simp: parseExpressRoute_def Let_def)
  have start: "?I []"
  proof -
    have "[] = addEndpoints [] [] \<and> set [] \<subseteq> ?S"
      by (simp add: addEndpoints_Nil)
    then show ?thesis by blast
  qed
  note aux = walker_invariant_aux(1)[where I = ?I and S = ?S and opts = opts and app = app,
      OF merge implicit, rule_format]
  have "?I endpoints"
    by (rule aux[OF _ _ _ start run]) (use routes in blast)+
  then show ?thesis by blast
qed

section \<open>Claims about the walker, the extractor and the merger\<close>

theorem C4_paths_distinct_witness:
  "expressListEndpoints health_app None 0 =
     (Inr [\<lparr>path = ''/health'', methods = [''GET'', ''POST''], middlewares = [''anonymous'']\<rparr>], 0)
   \<and> distinct (map path
         [\<lparr>path = ''/health'', methods = [''GET'', ''POST''], middlewares = [''anonymous'']\<rparr>])"
proof -
  have run: "expressListEndpoints health_app None 0 =
     (Inr [\<lparr>path = ''/health'', methods = [''GET'', ''POST''], middlewares = [''anonymous'']\<rparr>], 0)"
    by code_simp
  from C4_paths_distinct[OF run] run show ?thesis
    by simp
qed

lemma addEndpoint_no_methods:
  "methods e = [] \<Longrightarrow>
   addEndpoint acc e = (if path e \<in> path ` set acc then acc else acc @ [e])"
  by (induction acc) (auto simp: addEndpoint_Nil addEndpoint_Cons)

text \<open>
  Claim C7, as stated, fails: a node without a stack that is reached with an empty
  accumulator contributes nothing, because the merge is guarded by \<open>endpoints.length\<close>.
\<close>

theorem C7_no_stack_counterexample:
  "parseEndpoints (Node None None) ''/x'' [] DEFAULT_OPTIONS 0 \<noteq>
     (Inr (addEndpoints [] [\<lparr>path = ''/x'', methods = [], middlewares = []\<rparr>]), 0)"
  by (simp add: addEndpoints_def addEndpoint_Nil)

text \<open>
  Claim C7, amended. For a node that has no stack of its own and none behind \<open>_router\<close>,
  every base path and every accumulator: if the accumulator is not empty, the implicit
  endpoint with the base path, no methods and no middlewares is merged into it (appended
  when the path is new, without effect when the path is present), and if the accumulator
  is empty it is returned as it is. The state of the pattern object is not touched.
\<close>

theorem C7_no_stack:
  "rt = None \<or> rt = Some None \<Longrightarrow>
   parseEndpoints (Node None rt) basePath endpoints options lastIndex =
     (Inr (if endpoints = [] then []
           else addEndpoints endpoints [\<lparr>path = basePath, methods = [], middlewares = []\<rparr>]),
      lastIndex)
   \<and> addEndpoints endpoints [\<lparr>path = basePath, methods = [], middlewares = []\<rparr>] =
       (if basePath \<in> path ` set endpoints then endpoints
        else endpoints @ [\<lparr>path = basePath, methods = [], middlewares = []\<rparr>])"
  by (auto simp: addEndpoints_def addEndpoint_no_methods)

theorem C7_no_stack_witness:
  "((Some None :: layer list option option) = None \<or> (Some None :: layer list option option) = Some None)
   \<and> parseEndpoints (Node None (Some None)) ''/files''
       [\<lparr>path = ''/health'', methods = [''GET''], middlewares = []\<rparr>] DEFAULT_OPTIONS 0 =
       (Inr [\<lparr>path = ''/health'', methods = [''GET''], middlewares = []\<rparr>,
             \<lparr>path = ''/files'', methods = [], middlewares = []\<rparr>], 0)"
  using C7_no_stack[of "Some None" "''/files''"
      "[\<lparr>path = ''/health'', methods = [''GET''], middlewares = []\<rparr>]" DEFAULT_OPTIONS 0]
  by simp

text \<open>
  Claim C9. A layer whose \<open>route\<close> is present is handed to \<open>parseExpressRoute\<close> with the
  current base path and the result is merged, whatever the layer's name, pattern, keys,
  path and handle and whatever the options; the traversal of the stack goes on with the
  merged accumulator. The list of recognised names, and with it the option
  \<open>includeMiddlewareRoutes\<close>, is consulted for a layer without a route only: such a layer
  is skipped when its name is absent or not in the list.
\<close>

theorem C9_route_layer_always_extracted:
  "parseStackItem (Layer (Some r) nm regexp keys pth handle) basePath endpoints options lastIndex =
     (Inr (addEndpoints endpoints (parseExpressRoute r basePath)), lastIndex)
   \<and> parseStack (Layer (Some r) nm regexp keys pth handle # rest) basePath endpoints options lastIndex =
       parseStack rest basePath (addEndpoints endpoints (parseExpressRoute r basePath)) options lastIndex
   \<and> ((case nm of None \<Rightarrow> True | Some n \<Rightarrow> n \<notin> set (VALID_NAMES options)) \<longrightarrow>
       parseStackItem (Layer None nm regexp keys pth handle) basePath endpoints options lastIndex =
         (Inr endpoints, lastIndex))"
  by (simp split: option.splits)

theorem C9_route_layer_always_extracted_witness:
  "parseStackItem
     (Layer (Some \<lparr>route_methods = [''get''], route_path = Inl ''/'', route_stack = []\<rparr>)
        (Some ''query'') None [] None opaque_handler) ''/api'' [] \<lparr>includeMiddlewareRoutes = False\<rparr> 0 =
     (Inr [\<lparr>path = ''/api'', methods = [''GET''], middlewares = []\<rparr>], 0)
   \<and> (case Some ''query'' of None \<Rightarrow> True
        | Some n \<Rightarrow> n \<notin> set (VALID_NAMES \<lparr>includeMiddlewareRoutes = False\<rparr>))
   \<and> parseStackItem (Layer None (Some ''query'') None [] None opaque_handler) ''/api'' []
        \<lparr>includeMiddlewareRoutes = False\<rparr> 0 = (Inr [], 0)"
proof -
  have valid: "case Some ''query'' of None \<Rightarrow> True
        | Some n \<Rightarrow> n \<notin> set (VALID_NAMES \<lparr>includeMiddlewareRoutes = False\<rparr>)"
    by (simp add: VALID_NAMES_def STACK_ITEM_VALID_NAMES_def)
  have merged: "addEndpoints []
      (parseExpressRoute \<lparr>route_methods = [''get''], route_path = Inl ''/'', route_stack = []\<rparr> ''/api'')
      = [\<lparr>path = ''/api'', methods = [''GET''], middlewares = []\<rparr>]"
    by code_simp
  from C9_route_layer_always_extracted[of
      "\<lparr>route_methods = [''get''], route_path = Inl ''/'', route_stack = []\<rparr>"
      "Some ''query''" None "[]" None opaque_handler "''/api''" "[]"
      "\<lparr>includeMiddlewareRoutes = False\<rparr>" 0 "[]"] valid merged
  show ?thesis by simp
qed

lemma parseStack_reports_route:
  "Layer (Some r) nm regexp keys pth handle \<in> set stack \<Longrightarrow>
   parseStack stack basePath endpoints options li = (Inr res, li') \<Longrightarrow>
   path ` set (parseExpressRoute r basePath) \<subseteq> path ` set res"
proof (induction stack arbitrary: endpoints li)
  case Nil
  then show ?case by simp
next
  case (Cons l ls)
  from Cons.prems(2) obtain mid li1 where
      item: "parseStackItem l basePath endpoints options li = (Inr mid, li1)"
      and rest: "parseStack ls basePath mid options li1 = (Inr res, li')"
    by (rule parseStack_Cons_Inr)
  show ?case
  proof (cases "l = Layer (Some r) nm regexp keys pth handle")
    case True
    with item have "mid = addEndpoints endpoints (parseExpressRoute r basePath)"
      by simp
    then have "path ` set (parseExpressRoute r basePath) \<subseteq> path ` set mid"
      using paths_addEndpoints_new[of "parseExpressRoute r basePath" endpoints] by simp
    with walker_paths_mono(2)[OF rest] show ?thesis
      by blast
  next
    case False
    with Cons.prems(1) have "Layer (Some r) nm regexp keys pth handle \<in> set ls"
      by simp
    from Cons.IH[OF this rest] show ?thesis .
  qed
qed

text \<open>
  Claim C10. A route whose method table is empty or holds the wildcard \<open>_all\<close> only is
  reported: \<open>parseExpressRoute\<close> gives one endpoint for each declared path, with the empty
  method list and the middlewares of the route, and when a layer with such a route is in a
  stack that \<open>parseStack\<close> gets through, the path of each of these endpoints is in the
  accumulator returned.
\<close>

theorem C10_route_without_methods_reported:
  "set (route_methods r) \<subseteq> {''_all''} \<Longrightarrow>
   parseExpressRoute r basePath =
     map (\<lambda>p. \<lparr>path = replace_global regexpExpressPathParamRegexp group1
                     (if basePath \<noteq> [] \<and> p = ''/'' then basePath else basePath @ p),
               methods = [], middlewares = getRouteMiddlewares r\<rparr>)
         (case route_path r of Inl p \<Rightarrow> [p] | Inr ps \<Rightarrow> ps)
   \<and> length (parseExpressRoute r basePath) = (case route_path r of Inl p \<Rightarrow> 1 | Inr ps \<Rightarrow> length ps)
   \<and> (\<forall>stack nm regexp keys pth handle endpoints options li res li'.
        Layer (Some r) nm regexp keys pth handle \<in> set stack \<longrightarrow>
        parseStack stack basePath endpoints options li = (Inr res, li') \<longrightarrow>
        path ` set (parseExpressRoute r basePath) \<subseteq> path ` set res)"
proof -
  assume keys: "set (route_methods r) \<subseteq> {''_all''}"
  then have "filter (\<lambda>method. method \<noteq> ''_all'') (route_methods r) = []"
    by (auto simp: filter_empty_conv)
  then have none: "getRouteMethods r = []"
    by (simp add: getRouteMethods_def)
  have a: "parseExpressRoute r basePath =
     map (\<lambda>p. \<lparr>path = replace_global regexpExpressPathParamRegexp group1
                     (if basePath \<noteq> [] \<and> p = ''/'' then basePath else basePath @ p),
               methods = [], middlewares = getRouteMiddlewares r\<rparr>)
         (case route_path r of Inl p \<Rightarrow> [p] | Inr ps \<Rightarrow> ps)"
    by (simp add: parseExpressRoute_def none Let_def split: sum.splits)
  have b: "length (parseExpressRoute r basePath) = (case route_path r of Inl p \<Rightarrow> 1 | Inr ps \<Rightarrow> length ps)"
    by (simp add: parseExpressRoute_def Let_def split: sum.splits)
  from a b parseStack_reports_route show ?thesis
    by blast
qed

theorem C10_route_without_methods_reported_witness:
  "set (route_methods \<lparr>route_methods = [''_all''], route_path = Inr [''/a'', ''/b/:id(x+)''],
                        route_stack = [''audit'']\<rparr>) \<subseteq> {''_all''}
   \<and> parseExpressRoute \<lparr>route_methods = [''_all''], route_path = Inr [''/a'', ''/b/:id(x+)''],
                          route_stack = [''audit'']\<rparr> ''/v1'' =
       [\<lparr>path = ''/v1/a'', methods = [], middlewares = [''audit'']\<rparr>,
        \<lparr>path = ''/v1/b/:id'', methods = [], middlewares = [''audit'']\<rparr>]"
proof -
  have keys: "set (route_methods \<lparr>route_methods = [''_all''], route_path = Inr [''/a'', ''/b/:id(x+)''],
                        route_stack = [''audit'']\<rparr>) \<subseteq> {''_all''}"
    by simp
  have paths: "map (\<lambda>p. replace_global regexpExpressPathParamRegexp group1 (''/v1'' @ p))
                 [''/a'', ''/b/:id(x+)''] = [''/v1/a'', ''/v1/b/:id'']"
    by code_simp
  from C10_route_without_methods_reported[OF keys, of "''/v1''"] keys paths show ?thesis
    by (simp add: getRouteMiddlewares_def)
qed

text \<open>
  Claim C6. Every endpoint that \<open>expressListEndpoints\<close> returns has a method list
  without the wildcard marker \<open>_all\<close> whose elements are upper-cased keys of method
  tables of the tree. When the method tables follow the data model (pairwise different
  lower-case keys), the method list has no duplicates and is in the order of first
  appearance: the returned list is the merge of a sequence of candidates, each with the
  methods of a route of the tree (or none, for a node without a stack), and the methods of
  an endpoint are those of the candidates with its path, each once, in the order in which
  they first appear. The table \<open>{get, post, _all}\<close> gives \<open>[GET, POST]\<close>. One round of merging leaves an
  entry as it is, appends the new endpoint, or appends to the entry with the same path the
  methods it does not have yet.
\<close>

theorem C6_methods_upper_case_distinct_ordered:
  "expressListEndpoints app options lastIndex = (Inr endpoints, lastIndex') \<Longrightarrow>
   (\<forall>e \<in> set endpoints.
       ''_all'' \<notin> set (methods e) \<and>
       (\<forall>m \<in> set (methods e). \<exists>r \<in> set (node_routes app). \<exists>k \<in> set (route_methods r). m = toUpperCase k))
   \<and> ((\<forall>r \<in> set (node_routes app). wf_route r) \<longrightarrow>
        (\<forall>e \<in> set endpoints. distinct (methods e)) \<and>
        (\<exists>cands. endpoints = addEndpoints [] cands \<and>
           (\<forall>c \<in> set cands. (\<exists>r \<in> set (node_routes app). methods c = getRouteMethods r) \<or> methods c = []) \<and>
           (\<forall>e \<in> set endpoints.
              methods e = first_seen (concat (map methods (filter (\<lambda>c. path c = path e) cands))))))
   \<and> getRouteMethods \<lparr>route_methods = [''get'', ''post'', ''_all''], route_path = p, route_stack = st\<rparr>
       = [''GET'', ''POST'']
   \<and> (\<forall>acc new e'. e' \<in> set (addEndpoint acc new) \<longrightarrow>
         e' \<in> set acc \<or> e' = new \<or>
         (\<exists>e \<in> set acc. path e = path new \<and>
            e' = e\<lparr>methods := methods e @ filter (\<lambda>m. m \<notin> set (methods e)) (methods new)\<rparr>))"
proof -
  assume "expressListEndpoints app options lastIndex = (Inr endpoints, lastIndex')"
  then have run: "parseEndpoints app [] []
      (case options of None \<Rightarrow> DEFAULT_OPTIONS | Some opts \<Rightarrow> opts) lastIndex = (Inr endpoints, lastIndex')"
    by (simp add: expressListEndpoints_def)
  from walker_candidates[OF run] obtain cands where
      merged: "endpoints = addEndpoints [] cands"
      and from_routes: "\<forall>c \<in> set cands. (\<exists>r \<in> set (node_routes app). methods c = getRouteMethods r) \<or> methods c = []"
    by blast
  have keys: "m \<noteq> ''_all'' \<and> (\<exists>r \<in> set (node_routes app). \<exists>k \<in> set (route_methods r). m = toUpperCase k)"
    if e: "e \<in> set endpoints" and m: "m \<in> set (methods e)" for e m
  proof -
    from addEndpoints_methods_origin[OF e[unfolded merged] m] obtain c where
        c: "c \<in> set cands" and mc: "m \<in> set (methods c)"
      by auto
    with from_routes obtain r where "r \<in> set (node_routes app)" and "m \<in> set (getRouteMethods r)"
      by fastforce
    with getRouteMethods_keys[of m r] show ?thesis by blast
  qed
  then have uncond: "\<forall>e \<in> set endpoints.
       ''_all'' \<notin> set (methods e) \<and>
       (\<forall>m \<in> set (methods e). \<exists>r \<in> set (node_routes app). \<exists>k \<in> set (route_methods r). m = toUpperCase k)"
    by blast
  have cond: "(\<forall>e \<in> set endpoints. distinct (methods e)) \<and>
        (\<exists>cands. endpoints = addEndpoints [] cands \<and>
           (\<forall>c \<in> set cands. (\<exists>r \<in> set (node_routes app). methods c = getRouteMethods r) \<or> methods c = []) \<and>
           (\<forall>e \<in> set endpoints.
              methods e = first_seen (concat (map methods (filter (\<lambda>c. path c = path e) cands)))))"
    if wf: "\<forall>r \<in> set (node_routes app). wf_route r"
  proof -
    have "distinct (methods c)" if "c \<in> set cands" for c
    proof -
      from from_routes that consider r where "r \<in> set (node_routes app)" "methods c = getRouteMethods r"
        | "methods c = []"
        by blast
      then show ?thesis
      proof cases
        case (1 r)
        with wf have "wf_route r" by blast
        from getRouteMethods_distinct[OF this] 1 show ?thesis by simp
      next
        case 2
        then show ?thesis by simp
      qed
    qed
    then have "\<forall>c \<in> set cands. distinct (methods c)"
      by blast
    from addEndpoints_first_seen[OF this] merged
    have order: "\<forall>e \<in> set endpoints.
        methods e = first_seen (concat (map methods (filter (\<lambda>c. path c = path e) cands)))"
      by simp
    then have "\<forall>e \<in> set endpoints. distinct (methods e)"
      using distinct_first_seen by metis
    with merged from_routes order show ?thesis by blast
  qed
  have example: "getRouteMethods \<lparr>route_methods = [''get'', ''post'', ''_all''], route_path = p, route_stack = st\<rparr>
       = [''GET'', ''POST'']"
  proof -
    have "map toUpperCase (filter (\<lambda>method. method \<noteq> ''_all'') [''get'', ''post'', ''_all''])
          = [''GET'', ''POST'']"
      by code_simp
    then show ?thesis by (simp add: getRouteMethods_def)
  qed
  from uncond cond example addEndpoint_entries show ?thesis
    by blast
qed

theorem C6_methods_upper_case_distinct_ordered_witness:
  "list_all wf_route (node_routes health_app)
   \<and> expressListEndpoints health_app None 0 =
       (Inr [\<lparr>path = ''/health'', methods = [''GET'', ''POST''], middlewares = [''anonymous'']\<rparr>], 0)
   \<and> ''_all'' \<notin> set [''GET'', ''POST''] \<and> distinct [''GET'', ''POST'']"
proof -
  have wf: "\<forall>r \<in> set (node_routes health_app). wf_route r"
    by (simp add: health_app_def opaque_handler_def wf_route_def lower_case_key_def)
  have run: "expressListEndpoints health_app None 0 =
       (Inr [\<lparr>path = ''/health'', methods = [''GET'', ''POST''], middlewares = [''anonymous'']\<rparr>], 0)"
    by code_simp
  from C6_methods_upper_case_distinct_ordered[OF run] wf
  have "''_all'' \<notin> set [''GET'', ''POST''] \<and> distinct [''GET'', ''POST'']"
    by simp
  with wf run show ?thesis
    by (simp add: list_all_iff)
qed

section \<open>Properties of the matcher\<close>

lemma char_matcher_Nil: "char_matcher P k ([], c) = None"
  by (simp add: char_matcher_def)

lemma char_matcher_Cons: "char_matcher P k (x # xs, c) = (if P x then k (xs, c) else None)"
  by (simp add: char_matcher_def)

lemma repeat_matcher_fail:
  assumes "f (\<lambda>_. None) = (\<lambda>_. None)"
  shows "repeat_matcher f m (\<lambda>_. None) = (\<lambda>_. None)"
proof (induction m)
  case 0
  show ?case by (intro ext) simp
next
  case (Suc m)
  show ?case by (intro ext) (simp add: Suc assms cong: if_cong)
qed

text \<open>A matcher whose continuation always fails, fails.\<close>

lemma matcher_fail_fun: "matcher n r (\<lambda>_. None) = (\<lambda>_. None)"
proof (induction r)
  case (Star r)
  show ?case by (intro ext) (simp add: repeat_matcher_fail[of "matcher n r", OF Star])
next
  case (Plus r)
  show ?case by (intro ext) (simp add: repeat_matcher_fail[of "matcher n r", OF Plus] Plus)
next
  case (Seq r1 r2)
  show ?case by (intro ext) (simp add: Seq)
next
  case (Alt r1 r2)
  show ?case by (intro ext) (simp add: Alt)
next
  case (Opt r)
  show ?case by (intro ext) (simp add: Opt cong: if_cong)
next
  case (Group i r)
  show ?case by (intro ext) (simp add: Group)
qed (auto simp: char_matcher_def split: list.splits)

lemma matcher_fail: "matcher n r (\<lambda>_. None) st = None"
  by (simp add: matcher_fail_fun)

text \<open>More iterations than characters are never used.\<close>

lemma repeat_matcher_fuel:
  assumes fail: "\<And>st. f (\<lambda>_. None) st = None"
  shows "length (fst st) \<le> m \<Longrightarrow> repeat_matcher f m k st = repeat_matcher f (length (fst st)) k st"
proof (induction m arbitrary: st rule: less_induct)
  case (less m)
  show ?case
  proof (cases "length (fst st) = m")
    case True
    then show ?thesis by simp
  next
    case False
    with less.prems obtain m0 where m: "m = Suc m0" and le: "length (fst st) \<le> m0"
      by (cases m) auto
    show ?thesis
    proof (cases "length (fst st)")
      case 0
      then have "(\<lambda>st'. if length (fst st') < length (fst st) then repeat_matcher f m0 k st' else None)
                 = (\<lambda>_. None)"
        by (intro ext) simp
      with 0 show ?thesis by (simp add: m fail)
    next
      case (Suc l0)
      have "(\<lambda>st'. if length (fst st') < length (fst st) then repeat_matcher f m0 k st' else None)
          = (\<lambda>st'. if length (fst st') < length (fst st) then repeat_matcher f l0 k st' else None)"
      proof (intro ext)
        fix st'
        show "(if length (fst st') < length (fst st) then repeat_matcher f m0 k st' else None)
            = (if length (fst st') < length (fst st) then repeat_matcher f l0 k st' else None)"
        proof (cases "length (fst st') < length (fst st)")
          case True
          with Suc le have a: "length (fst st') \<le> m0" and b: "length (fst st') \<le> l0"
            by simp_all
          from m have "m0 < m" by simp
          from less.IH[OF this a] have "repeat_matcher f m0 k st' = repeat_matcher f (length (fst st')) k st'" .
          moreover from Suc le m have "l0 < m" by simp
          from less.IH[OF this b] have "repeat_matcher f l0 k st' = repeat_matcher f (length (fst st')) k st'" .
          ultimately show ?thesis by simp
        next
          case False
          then show ?thesis by simp
        qed
      qed
      with Suc show ?thesis by (simp add: m)
    qed
  qed
qed

text \<open>The quantifier \<open>*\<close> as ECMAScript states it, without the bound on the iterations.\<close>

lemma repeat_matcher_unfold:
  "matcher n (Star a) k st =
     (case matcher n a (\<lambda>st'. if length (fst st') < length (fst st) then matcher n (Star a) k st' else None) st of
        Some r \<Rightarrow> Some r
      | None \<Rightarrow> k st)"
proof (cases "length (fst st)")
  case 0
  then have "(\<lambda>st'. if length (fst st') < length (fst st) then matcher n (Star a) k st' else None)
                 = (\<lambda>_. None)"
    by (intro ext) simp
  with 0 show ?thesis by (simp add: matcher_fail)
next
  case (Suc l)
  have "(\<lambda>st'. if length (fst st') < length (fst st) then repeat_matcher (matcher n a) l k st' else None)
      = (\<lambda>st'. if length (fst st') < length (fst st) then matcher n (Star a) k st' else None)"
  proof (intro ext)
    fix st'
    show "(if length (fst st') < length (fst st) then repeat_matcher (matcher n a) l k st' else None)
      = (if length (fst st') < length (fst st) then matcher n (Star a) k st' else None)"
      using repeat_matcher_fuel[of "matcher n a" st' l k, OF matcher_fail] Suc
      by simp
  qed
  with Suc show ?thesis by simp
qed

lemma matcher_Plus: "matcher n (Plus a) k st = matcher n a (matcher n (Star a) k) st"
proof -
  have "(\<lambda>st'. repeat_matcher (matcher n a) (length (fst st')) k st') = matcher n (Star a) k"
    by (intro ext) simp
  then show ?thesis by simp
qed

lemma star_Class_Nil: "matcher n (Star (Class items)) k ([], c) = k ([], c)"
  by simp

lemma star_Class_Cons:
  "matcher n (Star (Class items)) k (x # xs, c) =
     (if in_class items x
      then (case matcher n (Star (Class items)) k (xs, c) of Some r \<Rightarrow> Some r | None \<Rightarrow> k (x # xs, c))
      else k (x # xs, c))"
  by (subst repeat_matcher_unfold) (simp add: char_matcher_Cons)

lemma star_NClass_Nil: "matcher n (Star (NClass items)) k ([], c) = k ([], c)"
  by simp

lemma star_NClass_Cons:
  "matcher n (Star (NClass items)) k (x # xs, c) =
     (if \<not> in_class items x
      then (case matcher n (Star (NClass items)) k (xs, c) of Some r \<Rightarrow> Some r | None \<Rightarrow> k (x # xs, c))
      else k (x # xs, c))"
  by (subst repeat_matcher_unfold) (simp add: char_matcher_Cons)

lemma star_Dot_Nil: "matcher n (Star Dot) k ([], c) = k ([], c)"
  by simp

lemma star_Dot_Cons:
  "matcher n (Star Dot) k (x # xs, c) =
     (if \<not> is_line_terminator x
      then (case matcher n (Star Dot) k (xs, c) of Some r \<Rightarrow> Some r | None \<Rightarrow> k (x # xs, c))
      else k (x # xs, c))"
  by (subst repeat_matcher_unfold) (simp add: char_matcher_Cons)

lemma opt_Chr_Nil: "matcher n (Opt (Chr a)) k ([], c) = k ([], c)"
  by (simp add: char_matcher_Nil)

lemma opt_Chr_Cons:
  "matcher n (Opt (Chr a)) k (x # xs, c) =
     (if x = a then (case k (xs, c) of Some r \<Rightarrow> Some r | None \<Rightarrow> k (x # xs, c)) else k (x # xs, c))"
  by (simp add: char_matcher_Cons)

lemma chr_Nil: "matcher n (Chr a) k ([], c) = None"
  by (simp add: char_matcher_Nil)

lemma chr_Cons: "matcher n (Chr a) k (x # xs, c) = (if x = a then k (xs, c) else None)"
  by (simp add: char_matcher_Cons)

lemma nclass_Cons: "matcher n (NClass items) k (x # xs, c) = (if \<not> in_class items x then k (xs, c) else None)"
  by (simp add: char_matcher_Cons)

lemmas matcher_eval = matcher.simps(5-8) matcher.simps(12) matcher_Plus
  star_Class_Nil star_Class_Cons star_NClass_Nil star_NClass_Cons star_Dot_Nil star_Dot_Cons
  opt_Chr_Nil opt_Chr_Cons chr_Nil chr_Cons nclass_Cons

text \<open>A pattern that starts with a character matches only where that character is.\<close>

lemma match_at_param_group_first:
  "x \<noteq> CHR ''('' \<Longrightarrow> match_at n (param_group seps) (x # xs) = None"
  by (simp add: match_at_def param_group_def char_matcher_Cons)

lemma match_at_param_group_Nil: "match_at n (param_group seps) [] = None"
  by (simp add: match_at_def param_group_def char_matcher_Nil)

lemma scan_param_group_skip:
  "CHR ''('' \<notin> set w \<Longrightarrow>
   scan n (param_group seps) i (w @ rest) = scan n (param_group seps) (i + length w) rest"
proof (induction w arbitrary: i)
  case Nil
  show ?case by simp
next
  case (Cons a w)
  then have "a \<noteq> CHR ''(''" by auto
  then have "match_at n (param_group seps) (a # w @ rest) = None"
    by (rule match_at_param_group_first)
  with Cons show ?case by simp
qed

lemma scan_None_drop: "scan n r i s = None \<Longrightarrow> scan n r j (drop d s) = None"
proof (induction s arbitrary: i j d)
  case Nil
  then show ?case by (simp split: option.splits)
next
  case (Cons c cs)
  from Cons.prems have here: "match_at n r (c # cs) = None" and later: "scan n r (Suc i) cs = None"
    by (simp_all split: option.splits)
  show ?case
  proof (cases d)
    case 0
    from Cons.IH[OF later, of "Suc j" 0] here 0 show ?thesis by simp
  next
    case (Suc d')
    from Cons.IH[OF later, of j d'] Suc show ?thesis by simp
  qed
qed

lemma test_global_no_match:
  "scan (length s) r 0 s = None \<Longrightarrow> test_global r s lastIndex = (False, 0)"
  using scan_None_drop[of "length s" r 0 s lastIndex lastIndex]
  by (simp add: test_global_def)

text \<open>The two encodings of a parameter's capture group, as the patterns of the source see them.\<close>

lemma match_at_fragment_A:
  "match_at n (param_group seps) (''(?:([^'' @ BSL # ''/]+?))'' @ rest) = Some (13, \<lambda>_. None)"
  if "seps = [Opt (Chr BSL), Opt (Chr CHR ''/'')] \<or> seps = [Opt (Chr BSL), Opt (Chr BSL), Opt (Chr CHR ''/'')]"
  using that
  by (auto simp del: matcher.simps simp add: match_at_def param_group_def matcher_eval in_class_def)

lemma match_at_fragment_B:
  "match_at n (param_group seps) (''(?:'' @ BSL # ''/([^'' @ BSL # ''/]+?))'' @ rest) = Some (15, \<lambda>_. None)"
  if "seps = [Opt (Chr BSL), Opt (Chr CHR ''/'')] \<or> seps = [Opt (Chr BSL), Opt (Chr BSL), Opt (Chr CHR ''/'')]"
  using that
  by (auto simp del: matcher.simps simp add: match_at_def param_group_def matcher_eval in_class_def)

section \<open>Decoding a substituted pattern\<close>

lemma is_word_facts:
  "is_word c \<Longrightarrow> c \<noteq> BSL \<and> c \<noteq> CHR ''/'' \<and> c \<noteq> CHR ''('' \<and> c \<noteq> CHR '':'' \<and> c \<noteq> CHR ''?''"
  by (auto simp: is_word_def)

lemma path_class_word: "is_word c \<or> c = CHR ''-'' \<Longrightarrow> in_class [CWord, CChar BSL, CChar CHR ''.'', CChar CHR ''-''] c"
  by (auto simp: in_class_def)

text \<open>
  \<open>[\w\\.-]*\<close> on a word that is followed by an escaped separator: the class takes the
  backslash as well, the next character does not fit there, and one step back the
  continuation succeeds.
\<close>

lemma star_path_class_run:
  assumes "list_all (\<lambda>c. is_word c \<or> c = CHR ''-'') w"
      and "k (CHR ''/'' # R, c) = None"
      and "k (BSL # CHR ''/'' # R, c) = Some res"
  shows "matcher n (Star path_class) k (w @ BSL # CHR ''/'' # R, c) = Some res"
  using assms
proof (induction w)
  case Nil
  then show ?case
    by (simp del: matcher.simps add: path_class_def star_Class_Cons in_class_def is_word_def)
next
  case (Cons x w)
  then have "in_class [CWord, CChar BSL, CChar CHR ''.'', CChar CHR ''-''] x"
    by (simp add: path_class_word)
  with Cons show ?case
    by (simp del: matcher.simps add: path_class_def star_Class_Cons)
qed


lemma star_path_class_stop:
  "\<not> is_word x \<Longrightarrow> x \<noteq> BSL \<Longrightarrow> x \<noteq> CHR ''.'' \<Longrightarrow> x \<noteq> CHR ''-'' \<Longrightarrow>
   matcher n (Star path_class) k (x # r, c) = k (x # r, c)"
  by (simp del: matcher.simps add: path_class_def star_Class_Cons in_class_def)

lemma escaped_tail_starts: "\<exists>R. escaped_text T @ pattern_tail = BSL # CHR ''/'' # R"
  by (cases T) (simp_all add: escaped_text_def pattern_tail_def)

lemma star_segment_part_stop:
  "x \<noteq> BSL \<Longrightarrow> matcher n (Star segment_part) K (x # r, c) = K (x # r, c)"
  by (subst repeat_matcher_unfold) (simp del: matcher.simps add: matcher.simps(7) chr_Cons)

lemma segment_text_run:
  assumes wf: "wf_segment s"
      and over: "k (CHR ''/'' # R, c) = None"
      and good: "k (BSL # CHR ''/'' # R, c) = Some res"
  shows "matcher n (Seq (Opt (Chr CHR '':'')) (Star path_class)) k
           (segment_text s @ BSL # CHR ''/'' # R, c) = Some res"
proof (cases s)
  case (Lit w)
  with wf obtain x w' where w: "w = x # w'" and x: "is_word x \<or> x = CHR ''-''"
      and all: "list_all (\<lambda>c. is_word c \<or> c = CHR ''-'') w"
    by (cases w) auto
  from x have "x \<noteq> CHR '':''"
    by (auto simp: is_word_def)
  moreover have "matcher n (Star path_class) k (w @ BSL # CHR ''/'' # R, c) = Some res"
    using all over good by (rule star_path_class_run)
  ultimately show ?thesis
    using Lit w by (simp del: matcher.simps add: matcher.simps(7) opt_Chr_Cons)
next
  case (Param p)
  with wf have "list_all (\<lambda>c. is_word c \<or> c = CHR ''-'') p"
    by (simp add: list_all_iff)
  then have "matcher n (Star path_class) k (p @ BSL # CHR ''/'' # R, c) = Some res"
    using over good by (rule star_path_class_run)
  with Param show ?thesis
    by (simp del: matcher.simps add: matcher.simps(7) opt_Chr_Cons)
qed

lemma star_segments:
  assumes K1: "\<And>r c. K (CHR ''/'' # r, c) = None"
      and K2: "\<And>r c. K (CHR ''?'' # r, c) = None"
      and tail: "K (pattern_tail, c) = Some res"
  shows "wf_template T \<Longrightarrow> matcher n (Star segment_part) K (escaped_text T @ pattern_tail, c) = Some res"
proof (induction T)
  case Nil
  have "matcher n (Star segment_part) K (pattern_tail, c) = K (pattern_tail, c)"
    unfolding pattern_tail_def
    by (subst repeat_matcher_unfold)
       (simp del: matcher.simps add: matcher.simps(7) chr_Cons opt_Chr_Cons
          star_path_class_stop is_word_def star_segment_part_stop K2)
  with tail show ?case by (simp add: escaped_text_def)
next
  case (Cons s T)
  then have wf: "wf_segment s" and IH: "matcher n (Star segment_part) K (escaped_text T @ pattern_tail, c) = Some res"
    by (simp_all add: wf_template_def)
  obtain R where R: "escaped_text T @ pattern_tail = BSL # CHR ''/'' # R"
    using escaped_tail_starts by blast
  let ?st = "(BSL # CHR ''/'' # segment_text s @ BSL # CHR ''/'' # R, c)"
  let ?k = "\<lambda>st'. if length (fst st') < length (fst ?st) then matcher n (Star segment_part) K st' else None"
  have over: "?k (CHR ''/'' # R, c) = None"
    by (simp del: matcher.simps add: star_segment_part_stop K1)
  have good: "?k (BSL # CHR ''/'' # R, c) = Some res"
    using IH R by (simp del: matcher.simps)
  have "matcher n (Seq (Opt (Chr CHR '':'')) (Star path_class)) ?k
           (segment_text s @ BSL # CHR ''/'' # R, c) = Some res"
    using wf over good by (rule segment_text_run)
  then have "matcher n segment_part ?k ?st = Some res"
    by (simp del: matcher.simps add: matcher.simps(7) chr_Cons)
  then have "matcher n (Star segment_part) K ?st = Some res"
    by (subst repeat_matcher_unfold) (simp del: matcher.simps)
  moreover have "escaped_text (s # T) @ pattern_tail = fst ?st"
    using R by (simp add: escaped_text_def)
  ultimately show ?case by simp
qed

lemma star_Dot_all:
  "list_all (\<lambda>x. \<not> is_line_terminator x) w \<Longrightarrow> matcher n (Star Dot) Some (w, c) = Some ([], c)"
  by (induction w) (simp_all del: matcher.simps add: star_Dot_Nil star_Dot_Cons)

lemma matcher_Seq_fun: "matcher n (Seq a b) k = matcher n a (matcher n b k)"
  by (intro ext) simp

text \<open>
  The first alternative of \<open>regExpToParseExpressPathRegExp\<close> on the body of a substituted
  pattern: the first capture is the whole body, up to the escaped separator that begins
  the end of the pattern.
\<close>

lemma first_alternative_substituted:
  assumes wf: "wf_template (s # T)"
  shows "matcher n (Group 1 (Seq (Opt (Chr CHR '':'')) (Seq (Star path_class) (Star segment_part))))
           (matcher n (Seq (Chr BSL) (Seq (Chr CHR ''/'') (Star Dot))) Some)
           (segment_text s @ escaped_text T @ pattern_tail, c0)
         = Some ([], c0(1 := Some (segment_text s @ escaped_text T)))"
proof -
  let ?body = "segment_text s @ escaped_text T"
  let ?X = "?body @ pattern_tail"
  let ?k3 = "matcher n (Seq (Chr BSL) (Seq (Chr CHR ''/'') (Star Dot))) Some"
  let ?K = "\<lambda>st'. ?k3 (fst st', (snd st')(1 := Some (take (length ?X - length (fst st')) ?X)))"
  let ?res = "([], c0(1 := Some ?body))"
  from wf have wfs: "wf_segment s" and wfT: "wf_template T"
    by (simp_all add: wf_template_def)
  obtain R where R: "escaped_text T @ pattern_tail = BSL # CHR ''/'' # R"
    using escaped_tail_starts by blast
  have K1: "\<And>r c. ?K (CHR ''/'' # r, c) = None"
    by (simp del: matcher.simps add: matcher.simps(7) chr_Cons)
  have K2: "\<And>r c. ?K (CHR ''?'' # r, c) = None"
    by (simp del: matcher.simps add: matcher.simps(7) chr_Cons)
  have "?k3 (pattern_tail, c0(1 := Some ?body)) = Some ?res"
    unfolding pattern_tail_def
    by (simp del: matcher.simps add: matcher.simps(7) chr_Cons star_Dot_all is_line_terminator_def)
  then have Ktail: "?K (pattern_tail, c0) = Some ?res"
    by simp
  have segs: "matcher n (Star segment_part) ?K (escaped_text T @ pattern_tail, c0) = Some ?res"
    using K1 K2 Ktail wfT by (rule star_segments)
  have over: "matcher n (Star segment_part) ?K (CHR ''/'' # R, c0) = None"
    using K1 by (simp del: matcher.simps add: star_segment_part_stop)
  have good: "matcher n (Star segment_part) ?K (BSL # CHR ''/'' # R, c0) = Some ?res"
    using segs R by simp
  have "matcher n (Seq (Opt (Chr CHR '':'')) (Star path_class)) (matcher n (Star segment_part) ?K)
           (segment_text s @ BSL # CHR ''/'' # R, c0) = Some ?res"
    using wfs over good by (rule segment_text_run)
  then have "matcher n (Seq (Opt (Chr CHR '':'')) (Seq (Star path_class) (Star segment_part))) ?K
           (?X, c0) = Some ?res"
    unfolding matcher_Seq_fun using R by simp
  then show ?thesis
    unfolding matcher.simps(12) by simp
qed


lemma scan_hit: "match_at n r s = Some (len, caps) \<Longrightarrow> scan n r i s = Some (i, len, caps)"
  by (cases s) simp_all

lemma escaped_text_Cons: "escaped_text (s # T) = BSL # CHR ''/'' # segment_text s @ escaped_text T"
  by (simp add: escaped_text_def)

lemma matcher_recognizer_substituted:
  assumes wf: "wf_template (s # T)"
      and S: "S = CHR ''/'' # CHR ''^'' # BSL # CHR ''/'' # segment_text s @ escaped_text T @ pattern_tail"
      and n: "n = length S"
  shows "matcher n regExpToParseExpressPathRegExp Some (S, \<lambda>_. None)
         = Some ([], (\<lambda>_. None)(1 := Some (segment_text s @ escaped_text T)))"
  unfolding regExpToParseExpressPathRegExp_def S
  using n S
  by (simp del: matcher.simps add: matcher.simps(5) matcher.simps(7) matcher.simps(8)
        chr_Cons opt_Chr_Cons first_alternative_substituted[OF wf, unfolded One_nat_def])

lemma exec_recognizer_substituted:
  assumes wf: "wf_template (s # T)"
  shows "exec regExpToParseExpressPathRegExp (''/^'' @ escaped_text (s # T) @ pattern_tail)
         = Some (0, length (''/^'' @ escaped_text (s # T) @ pattern_tail),
                 (\<lambda>_. None)(1 := Some (segment_text s @ escaped_text T)))"
proof -
  let ?S = "''/^'' @ escaped_text (s # T) @ pattern_tail"
  have shape: "?S = CHR ''/'' # CHR ''^'' # BSL # CHR ''/'' # segment_text s @ escaped_text T @ pattern_tail"
    by (simp add: escaped_text_Cons)
  have "matcher (length ?S) regExpToParseExpressPathRegExp Some (?S, \<lambda>_. None)
        = Some ([], (\<lambda>_. None)(1 := Some (segment_text s @ escaped_text T)))"
    using wf shape by (rule matcher_recognizer_substituted) simp
  then have "match_at (length ?S) regExpToParseExpressPathRegExp ?S
        = Some (length ?S, (\<lambda>_. None)(1 := Some (segment_text s @ escaped_text T)))"
    by (simp add: match_at_def)
  then show ?thesis
    unfolding exec_def by (rule scan_hit)
qed

section \<open>Removing the escapes\<close>

lemma match_at_escaped_slash:
  "match_at n escapedSlashRegexp (BSL # CHR ''/'' # rest) = Some (2, \<lambda>_. None)"
  "x \<noteq> BSL \<Longrightarrow> match_at n escapedSlashRegexp (x # xs) = None"
  "match_at n escapedSlashRegexp [] = None"
  by (simp_all add: match_at_def escapedSlashRegexp_def char_matcher_def)

lemma replace_walk_plain:
  "BSL \<notin> set w \<Longrightarrow>
   replace_walk n escapedSlashRegexp f 0 (w @ rest) = w @ replace_walk n escapedSlashRegexp f 0 rest"
proof (induction w)
  case Nil
  show ?case by simp
next
  case (Cons x w)
  then have "x \<noteq> BSL" by auto
  then have "match_at n escapedSlashRegexp (x # w @ rest) = None"
    by (rule match_at_escaped_slash(2))
  with Cons show ?case by simp
qed

lemma replace_walk_slash:
  "replace_walk n escapedSlashRegexp f 0 (BSL # CHR ''/'' # rest) =
     f (\<lambda>_. None) @ replace_walk n escapedSlashRegexp f 0 rest"
  by (simp add: match_at_escaped_slash(1))

lemma segment_text_plain: "wf_segment s \<Longrightarrow> BSL \<notin> set (segment_text s) \<and> CHR ''('' \<notin> set (segment_text s)"
  by (cases s) (auto simp: list_all_iff is_word_def)

lemma unescape_escaped_text:
  "wf_template T \<Longrightarrow>
   replace_walk n escapedSlashRegexp (\<lambda>_. ''/'') 0 (escaped_text T) = template_text T"
proof (induction T)
  case Nil
  show ?case by (simp add: escaped_text_def template_text_def match_at_escaped_slash(3))
next
  case (Cons s T)
  then have s: "BSL \<notin> set (segment_text s)" and IH:
      "replace_walk n escapedSlashRegexp (\<lambda>_. ''/'') 0 (escaped_text T) = template_text T"
    by (simp_all add: wf_template_def segment_text_plain)
  have "replace_walk n escapedSlashRegexp (\<lambda>_. ''/'') 0 (segment_text s @ escaped_text T)
        = segment_text s @ template_text T"
    using s IH by (simp add: replace_walk_plain)
  then show ?case
    by (simp add: escaped_text_Cons replace_walk_slash template_text_def del: replace_walk.simps)
qed

lemma unescape_body:
  assumes "wf_template (s # T)"
  shows "replace_global escapedSlashRegexp (\<lambda>_. ''/'') (segment_text s @ escaped_text T)
         = segment_text s @ template_text T"
proof -
  from assms have "BSL \<notin> set (segment_text s)" and "wf_template T"
    by (simp_all add: wf_template_def segment_text_plain)
  then show ?thesis
    by (simp add: replace_global_def replace_walk_plain unescape_escaped_text)
qed

section \<open>The search for capture groups\<close>

lemma seqs_Cons: "rs \<noteq> [] \<Longrightarrow> seqs (r # rs) = Seq r (seqs rs)"
  by (cases rs) simp_all

lemma scan_param_group_tail: "scan n (param_group seps) i pattern_tail = None"
proof -
  have "match_at n (param_group seps) (''(?='' @ rest) = None" for rest
    by (simp add: match_at_def param_group_def char_matcher_def seqs_Cons)
  then show ?thesis
    by (simp add: pattern_tail_def match_at_param_group_first match_at_param_group_Nil)
qed

lemma escaped_text_no_paren: "wf_template T \<Longrightarrow> CHR ''('' \<notin> set (escaped_text T)"
  by (induction T) (auto simp: escaped_text_def wf_template_def segment_text_plain)

lemma hasParams_substituted:
  assumes "wf_template T"
  shows "hasParams (''/^'' @ escaped_text T @ pattern_tail) lastIndex = (False, 0)"
proof -
  have "CHR ''('' \<notin> set (''/^'' @ escaped_text T)"
    using assms by (simp add: escaped_text_no_paren)
  then have "scan n regexpExpressParamRegexp 0 ((''/^'' @ escaped_text T) @ pattern_tail)
      = scan n regexpExpressParamRegexp (0 + length (''/^'' @ escaped_text T)) pattern_tail" for n
    unfolding regexpExpressParamRegexp_def by (rule scan_param_group_skip)
  then have "scan n regexpExpressParamRegexp 0 (''/^'' @ escaped_text T @ pattern_tail) = None" for n
    by (simp add: regexpExpressParamRegexp_def scan_param_group_tail del: scan.simps)
  then show ?thesis
    unfolding hasParams_def by (intro test_global_no_match)
qed

section \<open>The loop on a pattern with one capture group\<close>

lemma compile_without_params:
  "paramsOf T = [] \<Longrightarrow> concat (map (compile_segment enc) T) = escaped_text T"
proof (induction T)
  case Nil
  show ?case by (simp add: escaped_text_def)
next
  case (Cons s T)
  then show ?case by (cases s) (simp_all add: escaped_text_Cons)
qed

lemma one_param_split:
  "length (paramsOf T) = 1 \<Longrightarrow>
   \<exists>T1 p T2. T = T1 @ Param p # T2 \<and> paramsOf T1 = [] \<and> paramsOf T2 = []"
proof (induction T)
  case Nil
  then show ?case by simp
next
  case (Cons s T)
  show ?case
  proof (cases s)
    case (Lit w)
    with Cons obtain T1 p T2 where "T = T1 @ Param p # T2" "paramsOf T1 = []" "paramsOf T2 = []"
      by auto
    with Lit have "s # T = (s # T1) @ Param p # T2 \<and> paramsOf (s # T1) = [] \<and> paramsOf T2 = []"
      by simp
    then show ?thesis by blast
  next
    case (Param p)
    with Cons.prems have "s # T = [] @ Param p # T \<and> paramsOf [] = [] \<and> paramsOf T = []"
      by simp
    then show ?thesis by blast
  qed
qed

lemma paramsOf_append: "paramsOf (T1 @ T2) = paramsOf T1 @ paramsOf T2"
  by (induction T1 rule: paramsOf.induct) simp_all

lemma escaped_text_append: "escaped_text (T1 @ T2) = escaped_text T1 @ escaped_text T2"
  by (simp add: escaped_text_def)

lemma wf_template_append: "wf_template (T1 @ T2) = (wf_template T1 \<and> wf_template T2)"
  by (simp add: wf_template_def)

text \<open>
  A string with one capture group \<open>F\<close> after a prefix \<open>P\<close> without an opening parenthesis:
  \<open>test\<close> finds the group and leaves \<open>lastIndex\<close> at its end, \<open>replace\<close> rewrites it.
\<close>

lemma test_global_fragment:
  assumes "CHR ''('' \<notin> set P"
      and "\<And>n. match_at n (param_group seps) (F @ Q) = Some (length F, caps)"
  shows "test_global (param_group seps) (P @ F @ Q) 0 = (True, length P + length F)"
proof -
  have "scan n (param_group seps) 0 (P @ F @ Q) = Some (length P, length F, caps)" for n
    using assms by (simp add: scan_param_group_skip scan_hit)
  then show ?thesis
    by (simp add: test_global_def)
qed

lemma replace_first_fragment:
  assumes "CHR ''('' \<notin> set P"
      and "\<And>n. match_at n (param_group seps) (F @ Q) = Some (length F, caps)"
  shows "replace_first (param_group seps) f (P @ F @ Q) = P @ f F @ Q"
proof -
  have "scan n (param_group seps) 0 (P @ F @ Q) = Some (length P, length F, caps)" for n
    using assms by (simp add: scan_param_group_skip scan_hit)
  then show ?thesis
    by (simp add: replace_first_def exec_def)
qed

lemma paramLoop_one_fragment:
  assumes P: "CHR ''('' \<notin> set P"
      and F3: "\<And>n. match_at n regexpExpressParamRegexp (F @ Q) = Some (length F, caps)"
      and F2: "\<And>n. match_at n regExpToReplaceExpressPathRegExpParams (F @ Q) = Some (length F, caps')"
      and after: "\<And>li. hasParams (P @ replaceParam (CHR '':'' # p) F @ Q) li = (False, 0)"
  shows "paramLoop (P @ F @ Q) [\<lparr>key_name = p\<rparr>] 0 0 = (Inr (P @ replaceParam (CHR '':'' # p) F @ Q), 0)"
proof -
  have found: "hasParams (P @ F @ Q) 0 = (True, length P + length F)"
    unfolding hasParams_def regexpExpressParamRegexp_def
    using P F3[unfolded regexpExpressParamRegexp_def] by (rule test_global_fragment)
  have replaced: "replace_first regExpToReplaceExpressPathRegExpParams (replaceParam (CHR '':'' # p)) (P @ F @ Q)
        = P @ replaceParam (CHR '':'' # p) F @ Q"
    unfolding regExpToReplaceExpressPathRegExpParams_def
    using P F2[unfolded regExpToReplaceExpressPathRegExpParams_def] by (rule replace_first_fragment)
  have second: "paramLoop (P @ replaceParam (CHR '':'' # p) F @ Q) [\<lparr>key_name = p\<rparr>] (Suc 0) (length P + length F)
        = (Inr (P @ replaceParam (CHR '':'' # p) F @ Q), 0)"
    by (subst paramLoop.simps) (simp add: after)
  show ?thesis
    by (subst paramLoop.simps) (simp add: found replaced second del: paramLoop.simps)
qed

lemma parseExpressPath_after_loop:
  assumes "paramLoop S params 0 li = (Inr S', li')"
      and "exec regExpToParseExpressPathRegExp S' = Some (i, len, caps)"
      and "caps 1 = Some g"
  shows "parseExpressPath S params li = (Inr (replace_global escapedSlashRegexp (\<lambda>_. ''/'') g), li')"
proof -
  have "(if S' \<noteq> S then exec regExpToParseExpressPathRegExp S'
         else exec regExpToParseExpressPathRegExp S) = Some (i, len, caps)"
    using assms(2) by (cases "S' = S") simp_all
  with assms show ?thesis
    by (simp add: parseExpressPath_def Let_def)
qed

lemma paramLoop_no_fragment:
  assumes "wf_template T"
  shows "paramLoop (''/^'' @ escaped_text T @ pattern_tail) params 0 li
         = (Inr (''/^'' @ escaped_text T @ pattern_tail), 0)"
  by (subst paramLoop.simps) (simp add: hasParams_substituted[OF assms, simplified] del: paramLoop.simps)

lemma replaceParam_fragments:
  "replaceParam pid (''(?:([^'' @ BSL # ''/]+?))'') = pid"
  "replaceParam pid (''(?:'' @ BSL # ''/([^'' @ BSL # ''/]+?))'') = BSL # CHR ''/'' # pid"
  by (simp_all add: replaceParam_def)

lemma paramLoop_compile_one:
  assumes wf: "wf_template (T1 @ Param p # T2)"
      and T1: "paramsOf T1 = []" and T2: "paramsOf T2 = []"
  shows "paramLoop (compile enc (T1 @ Param p # T2)) [\<lparr>key_name = p\<rparr>] 0 0
         = (Inr (''/^'' @ escaped_text (T1 @ Param p # T2) @ pattern_tail), 0)"
proof -
  let ?Q = "escaped_text T2 @ pattern_tail"
  let ?S' = "''/^'' @ escaped_text (T1 @ Param p # T2) @ pattern_tail"
  from wf have wf1: "wf_template T1"
    by (simp add: wf_template_append)
  have after: "hasParams ?S' li = (False, 0)" for li
    using wf by (rule hasParams_substituted)
  show ?thesis
  proof (cases enc)
    case EncodingA
    let ?P = "''/^'' @ escaped_text T1 @ [BSL, CHR ''/'']"
    let ?F = "''(?:([^'' @ BSL # ''/]+?))''"
    have S: "compile enc (T1 @ Param p # T2) = ?P @ ?F @ ?Q"
      using EncodingA by (simp add: compile_def compile_without_params T1 T2)
    have S': "?S' = ?P @ replaceParam (CHR '':'' # p) ?F @ ?Q"
      by (simp add: escaped_text_append escaped_text_Cons replaceParam_def)
    have P: "CHR ''('' \<notin> set ?P"
      using wf1 by (simp add: escaped_text_no_paren)
    have "paramLoop (?P @ ?F @ ?Q) [\<lparr>key_name = p\<rparr>] 0 0
          = (Inr (?P @ replaceParam (CHR '':'' # p) ?F @ ?Q), 0)"
    proof (rule paramLoop_one_fragment[OF P])
      show "match_at n regexpExpressParamRegexp (?F @ ?Q) = Some (length ?F, \<lambda>_. None)" for n
        unfolding regexpExpressParamRegexp_def
        using match_at_fragment_A[where seps = "[Opt (Chr BSL), Opt (Chr BSL), Opt (Chr CHR ''/'')]" and rest = ?Q and n = n]
        by simp
      show "match_at n regExpToReplaceExpressPathRegExpParams (?F @ ?Q) = Some (length ?F, \<lambda>_. None)" for n
        unfolding regExpToReplaceExpressPathRegExpParams_def
        using match_at_fragment_A[where seps = "[Opt (Chr BSL), Opt (Chr CHR ''/'')]" and rest = ?Q and n = n]
        by simp
      show "hasParams (?P @ replaceParam (CHR '':'' # p) ?F @ ?Q) li = (False, 0)" for li
        using after[of li] unfolding S' .
    qed
    then show ?thesis unfolding S S' .
  next
    case EncodingB
    let ?P = "''/^'' @ escaped_text T1"
    let ?F = "''(?:'' @ BSL # ''/([^'' @ BSL # ''/]+?))''"
    have S: "compile enc (T1 @ Param p # T2) = ?P @ ?F @ ?Q"
      using EncodingB by (simp add: compile_def compile_without_params T1 T2)
    have S': "?S' = ?P @ replaceParam (CHR '':'' # p) ?F @ ?Q"
      by (simp add: escaped_text_append escaped_text_Cons replaceParam_def)
    have P: "CHR ''('' \<notin> set ?P"
      using wf1 by (simp add: escaped_text_no_paren)
    have "paramLoop (?P @ ?F @ ?Q) [\<lparr>key_name = p\<rparr>] 0 0
          = (Inr (?P @ replaceParam (CHR '':'' # p) ?F @ ?Q), 0)"
    proof (rule paramLoop_one_fragment[OF P])
      show "match_at n regexpExpressParamRegexp (?F @ ?Q) = Some (length ?F, \<lambda>_. None)" for n
        unfolding regexpExpressParamRegexp_def
        using match_at_fragment_B[where seps = "[Opt (Chr BSL), Opt (Chr BSL), Opt (Chr CHR ''/'')]" and rest = ?Q and n = n]
        by simp
      show "match_at n regExpToReplaceExpressPathRegExpParams (?F @ ?Q) = Some (length ?F, \<lambda>_. None)" for n
        unfolding regExpToReplaceExpressPathRegExpParams_def
        using match_at_fragment_B[where seps = "[Opt (Chr BSL), Opt (Chr CHR ''/'')]" and rest = ?Q and n = n]
        by simp
      show "hasParams (?P @ replaceParam (CHR '':'' # p) ?F @ ?Q) li = (False, 0)" for li
        using after[of li] unfolding S' .
    qed
    then show ?thesis unfolding S S' .
  qed
qed

section \<open>The state of the pattern object and the root pattern\<close>

lemma test_global_False: "test_global r s li = (False, li') \<Longrightarrow> li' = 0"
  by (auto simp: test_global_def split: if_splits option.splits)

text \<open>A call that returns leaves \<open>lastIndex\<close> at 0: the loop ends with a failed \<open>test\<close>.\<close>

lemma paramLoop_returns_reset:
  "paramLoop s params i li = (Inr s', li') \<Longrightarrow> li' = 0"
proof (induction s params i li rule: paramLoop.induct)
  case (1 parsedRegExp params paramIndex lastIndex)
  obtain found li1 where h: "hasParams parsedRegExp lastIndex = (found, li1)"
    by (cases "hasParams parsedRegExp lastIndex")
  show ?case
  proof (cases found)
    case False
    with h "1.prems" have "li' = li1"
      by (subst (asm) paramLoop.simps) simp
    moreover from h False have "li1 = 0"
      unfolding hasParams_def by (auto dest: test_global_False)
    ultimately show ?thesis by simp
  next
    case True
    show ?thesis
    proof (cases "paramIndex < length params")
      case False
      with h True "1.prems" show ?thesis
        by (subst (asm) paramLoop.simps) simp
    next
      case less: True
      from h True less "1.prems" have "paramLoop
          (replace_first regExpToReplaceExpressPathRegExpParams
             (replaceParam ('':'' @ key_name (params ! paramIndex))) parsedRegExp)
          params (Suc paramIndex) li1 = (Inr s', li')"
        by (subst (asm) paramLoop.simps) (simp add: Let_def)
      with "1.IH"[OF refl h[symmetric] True less refl refl] show ?thesis
        by simp
    qed
  qed
qed

lemma parseExpressPath_returns_reset:
  "parseExpressPath re params li = (Inr p, li') \<Longrightarrow> li' = 0"
proof -
  assume run: "parseExpressPath re params li = (Inr p, li')"
  obtain res li1 where loop: "paramLoop re params 0 li = (res, li1)"
    by (cases "paramLoop re params 0 li")
  show ?thesis
  proof (cases res)
    case (Inl e)
    with run loop show ?thesis
      by (simp add: parseExpressPath_def del: paramLoop.simps)
  next
    case (Inr s')
    from loop[unfolded Inr] have "li1 = 0"
      by (rule paramLoop_returns_reset)
    moreover from run loop Inr have "li' = li1"
      by (auto simp add: parseExpressPath_def Let_def simp del: paramLoop.simps
          split: option.splits prod.splits)
    ultimately show ?thesis by simp
  qed
qed

text \<open>
  The pattern of a mount at the root is recognised and decoded to the empty template, for
  every list of keys and in every state, so a recognised mount layer with this pattern
  hands its handle the base path with a separator appended.
\<close>

lemma root_pattern_recognized: "test regExpToParseExpressPathRegExp EXPRESS_ROOT_PATH_REGEXP_VALUE"
  by code_simp

lemma root_pattern_decoded:
  "parseExpressPath EXPRESS_ROOT_PATH_REGEXP_VALUE keys lastIndex = (Inr [], 0)"
proof -
  have root: "EXPRESS_ROOT_PATH_REGEXP_VALUE = ''/^'' @ escaped_text [] @ pattern_tail"
    by (simp add: EXPRESS_ROOT_PATH_REGEXP_VALUE_def escaped_text_def pattern_tail_def)
  have wf: "wf_template []"
    by (simp add: wf_template_def)
  have loop: "paramLoop EXPRESS_ROOT_PATH_REGEXP_VALUE keys 0 lastIndex = (Inr EXPRESS_ROOT_PATH_REGEXP_VALUE, 0)"
    unfolding root using wf by (rule paramLoop_no_fragment)
  have "map_option (\<lambda>(i, len, caps). caps (1::nat))
          (exec regExpToParseExpressPathRegExp EXPRESS_ROOT_PATH_REGEXP_VALUE) = Some (Some [])"
    by code_simp
  then obtain i len caps where
      ex: "exec regExpToParseExpressPathRegExp EXPRESS_ROOT_PATH_REGEXP_VALUE = Some (i, len, caps)"
      and g: "caps 1 = Some []"
    by (auto split: prod.splits)
  have "replace_global escapedSlashRegexp (\<lambda>_. ''/'') [] = []"
    by (simp add: replace_global_def match_at_escaped_slash(3))
  with parseExpressPath_after_loop[OF loop ex g] show ?thesis
    by simp
qed

lemma root_pattern_mount:
  "nm \<in> set (VALID_NAMES options) \<Longrightarrow>
   parseStackItem (Layer None (Some nm) (Some EXPRESS_ROOT_PATH_REGEXP_VALUE) keys pth handle)
       basePath endpoints options lastIndex
     = parseEndpoints handle (basePath @ ''/'') endpoints options 0"
  by (simp add: regexp_toString_def root_pattern_recognized root_pattern_decoded)

text \<open>
  Without descriptors a capture group that \<open>hasParams\<close> finds ends the call with a
  TypeError, and \<open>lastIndex\<close> stays at the end of the group.
\<close>

lemma decode_without_descriptors:
  "hasParams re lastIndex = (True, lastIndex') \<Longrightarrow>
   parseExpressPath re [] lastIndex = (Inl TypeError, lastIndex')"
  by (simp add: parseExpressPath_def Let_def)

section \<open>Claims that fail on concrete inputs\<close>

text \<open>
  Claim C1 fails on the code. The pattern of a mount at the root, whose text is
  \<open>EXPRESS_ROOT_PATH_REGEXP_VALUE\<close>, is recognised by \<open>regExpToParseExpressPathRegExp\<close>
  (both optional characters after \<^verbatim>\<open>/^\<close> can stay away, and the first capture is empty),
  so the first branch of \<open>parseStack\<close> appends a separator to the base path, and the
  comparison with the sentinel in the second branch is never reached: the route
  \<open>/users\<close> of a router mounted at the root is reported as \<open>//users\<close>, while the same
  router under a layer without a pattern gives \<open>/users\<close>.
\<close>

theorem C1_root_sentinel_changes_base_path:
  "test regExpToParseExpressPathRegExp EXPRESS_ROOT_PATH_REGEXP_VALUE
   \<and> parseExpressPath EXPRESS_ROOT_PATH_REGEXP_VALUE [] 0 = (Inr [], 0)
   \<and> expressListEndpoints (mounted (Some EXPRESS_ROOT_PATH_REGEXP_VALUE)) None 0 =
       (Inr [\<lparr>path = ''//users'', methods = [''GET''], middlewares = [''list'']\<rparr>], 0)
   \<and> expressListEndpoints (mounted None) None 0 =
       (Inr [\<lparr>path = ''/users'', methods = [''GET''], middlewares = [''list'']\<rparr>], 0)"
  by code_simp

text \<open>
  Claim C3 fails on the code. \<open>hasParams\<close> calls \<open>test\<close> on a pattern with the global flag,
  so it reads and writes \<open>lastIndex\<close>. A call of \<open>parseExpressPath\<close> that throws leaves
  \<open>lastIndex\<close> where the last match ended, and the next call starts its search there:
  with the pattern of \<open>/:a\<close> and the descriptor \<open>a\<close>, a call in the initial state returns
  \<open>:a\<close>, and the same call after a call that threw (the pattern of \<open>/users/:id\<close> without
  descriptors) throws.
\<close>

theorem C3_decode_depends_on_earlier_calls:
  "parseExpressPath (compile EncodingA [Param ''a'']) [\<lparr>key_name = ''a''\<rparr>] 0 = (Inr '':a'', 0)
   \<and> parseExpressPath (compile EncodingA [Lit ''users'', Param ''id'']) [] 0 = (Inl TypeError, 24)
   \<and> parseExpressPath (compile EncodingA [Param ''a'']) [\<lparr>key_name = ''a''\<rparr>] 24 = (Inl TypeError, 0)"
  by code_simp

text \<open>
  Claim C8 fails on the code. The pattern of \<open>/:a/:b\<close> has two capture-group fragments;
  with one descriptor \<open>parseExpressPath\<close> returns \<open>:a\<close>. After the first replacement
  \<open>lastIndex\<close> is behind the start of the second fragment in the shorter string, \<open>hasParams\<close>
  answers no, and the loop ends before it reads the missing descriptor.
\<close>

theorem C8_missing_descriptor_not_detected:
  "parseExpressPath (compile EncodingA [Param ''a'', Param ''b'']) [\<lparr>key_name = ''a''\<rparr>] 0 = (Inr '':a'', 0)
   \<and> parseExpressPath (compile EncodingB [Lit ''x'', Param ''a'', Param ''b'']) [\<lparr>key_name = ''a''\<rparr>] 0
       = (Inr ''x'', 0)"
  by code_simp

section \<open>The round trip of the decoder\<close>

lemma decode_root_pattern: "parseExpressPath (''/^'' @ pattern_tail) [] 0 = (Inr [], 0)"
  by code_simp

lemma paramLoop_compile:
  assumes wf: "wf_template T" and k: "length (paramsOf T) \<le> 1"
  shows "paramLoop (compile enc T) (paramsOf T) 0 0 = (Inr (''/^'' @ escaped_text T @ pattern_tail), 0)"
proof (cases "paramsOf T = []")
  case True
  then have "compile enc T = ''/^'' @ escaped_text T @ pattern_tail"
    by (simp add: compile_def compile_without_params)
  with wf True show ?thesis
    by (simp only: paramLoop_no_fragment)
next
  case False
  with k have "length (paramsOf T) = 1"
    by (cases "paramsOf T") auto
  then obtain T1 p T2 where T: "T = T1 @ Param p # T2" and T1: "paramsOf T1 = []" and T2: "paramsOf T2 = []"
    using one_param_split by blast
  then have "paramsOf T = [\<lparr>key_name = p\<rparr>]"
    by (simp add: paramsOf_append)
  with paramLoop_compile_one[OF wf[unfolded T] T1 T2, of enc] T show ?thesis
    by simp
qed

text \<open>
  Decoding the pattern compiled from a template of literal segments with at most one
  parameter, in the initial state of the pattern object.
\<close>

lemma decode_compiled_template:
  "wf_template T \<Longrightarrow> length (paramsOf T) \<le> 1 \<Longrightarrow>
   parseExpressPath (compile enc T) (paramsOf T) 0 = (Inr (drop 1 (template_text T)), 0)
   \<and> (T \<noteq> [] \<longrightarrow> ''/'' @ drop 1 (template_text T) = template_text T)"
proof -
  assume wf: "wf_template T" and k: "length (paramsOf T) \<le> 1"
  show ?thesis
  proof (cases T)
    case Nil
    then show ?thesis
      using decode_root_pattern by (simp add: compile_def template_text_def)
  next
    case (Cons s T')
    let ?S' = "''/^'' @ escaped_text T @ pattern_tail"
    have loop: "paramLoop (compile enc T) (paramsOf T) 0 0 = (Inr ?S', 0)"
      using wf k by (rule paramLoop_compile)
    have ex: "exec regExpToParseExpressPathRegExp ?S'
         = Some (0, length ?S', (\<lambda>_. None)(1 := Some (segment_text s @ escaped_text T')))"
      using wf unfolding Cons by (rule exec_recognizer_substituted)
    have "parseExpressPath (compile enc T) (paramsOf T) 0
          = (Inr (replace_global escapedSlashRegexp (\<lambda>_. ''/'') (segment_text s @ escaped_text T')), 0)"
      using loop ex by (rule parseExpressPath_after_loop) simp
    also have "replace_global escapedSlashRegexp (\<lambda>_. ''/'') (segment_text s @ escaped_text T')
          = segment_text s @ template_text T'"
      using wf unfolding Cons by (rule unescape_body)
    finally show ?thesis
      using Cons by (simp add: template_text_def)
  qed
qed

text \<open>
  With the separator that \<open>parseStack\<close> puts in front, a recognised mount layer whose
  pattern is compiled from such a template hands its handle the base path followed by
  the template.
\<close>

lemma mount_round_trip:
  assumes "wf_template T" and "length (paramsOf T) \<le> 1" and "T \<noteq> []"
      and "nm \<in> set (VALID_NAMES options)"
      and "test regExpToParseExpressPathRegExp (compile enc T)"
  shows "parseStackItem (Layer None (Some nm) (Some (compile enc T)) (paramsOf T) pth handle)
           basePath endpoints options 0
         = parseEndpoints handle (basePath @ template_text T) endpoints options 0"
proof -
  have "parseExpressPath (compile enc T) (paramsOf T) 0 = (Inr (drop 1 (template_text T)), 0)"
    and "''/'' @ drop 1 (template_text T) = template_text T"
    using decode_compiled_template[OF assms(1,2), of enc] assms(3) by blast+
  with assms(4,5) show ?thesis
    by (simp add: regexp_toString_def)
qed

text \<open>The scenario of the spec: a router mounted at \<open>/orgs/:orgId\<close> with a route \<open>/members\<close>.\<close>

lemma scenario_mounted_router:
  "expressListEndpoints (orgs_app EncodingA) None 0 =
     (Inr [\<lparr>path = ''/orgs/:orgId/members'', methods = [''GET''], middlewares = [''list'']\<rparr>], 0)"
  "expressListEndpoints (orgs_app EncodingB) None 0 =
     (Inr [\<lparr>path = ''/orgs/:orgId/members'', methods = [''GET''], middlewares = [''list'']\<rparr>], 0)"
  by code_simp+

text \<open>
  Claim C2, as stated, fails: the decoder returns the template without its first
  separator (\<open>parseStack\<close> puts it back).
\<close>

theorem C2_round_trip_counterexample:
  "parseExpressPath (compile EncodingA [Lit ''users'', Param ''id'']) (paramsOf [Lit ''users'', Param ''id'']) 0
     \<noteq> (Inr (template_text [Lit ''users'', Param ''id'']), 0)"
  by code_simp

text \<open>
  Claim C2, amended. For every template of literal segments with at most one parameter,
  under encoding A and under encoding B: decoding the compiled pattern with the
  template's parameter names, from the initial state of the pattern object
  (\<open>lastIndex = 0\<close>), returns the template without its first separator and leaves the
  state as it was; the separator that \<open>parseStack\<close> puts in front gives the template
  again. So the placeholder has exactly one separator before it in both encodings.
\<close>

theorem C2_decode_round_trip:
  "wf_template T \<Longrightarrow> length (paramsOf T) \<le> 1 \<Longrightarrow>
   parseExpressPath (compile enc T) (paramsOf T) 0 = (Inr (drop 1 (template_text T)), 0)
   \<and> (T \<noteq> [] \<longrightarrow> ''/'' @ drop 1 (template_text T) = template_text T)"
  by (rule decode_compiled_template)

theorem C2_decode_round_trip_witness:
  "wf_template [Lit ''orgs'', Param ''orgId'', Lit ''members'']
   \<and> length (paramsOf [Lit ''orgs'', Param ''orgId'', Lit ''members'']) \<le> 1
   \<and> parseExpressPath (compile EncodingA [Lit ''orgs'', Param ''orgId'', Lit ''members''])
         [\<lparr>key_name = ''orgId''\<rparr>] 0 = (Inr ''orgs/:orgId/members'', 0)
   \<and> parseExpressPath (compile EncodingB [Lit ''orgs'', Param ''orgId'', Lit ''members''])
         [\<lparr>key_name = ''orgId''\<rparr>] 0 = (Inr ''orgs/:orgId/members'', 0)"
proof -
  have wf: "wf_template [Lit ''orgs'', Param ''orgId'', Lit ''members'']"
    by (simp add: wf_template_def is_word_def)
  have k: "length (paramsOf [Lit ''orgs'', Param ''orgId'', Lit ''members'']) \<le> 1"
    by simp
  from C2_decode_round_trip[OF wf k, of EncodingA] C2_decode_round_trip[OF wf k, of EncodingB] wf k
  show ?thesis
    by (simp add: template_text_def)
qed

end
